theory Spec2Isabelle
  imports Complex_Main "HOL-Library.Char_ord" "HOL-Library.List_Lexorder"
begin

section \<open>Data model of \<open>torch/_inductor/comms.py\<close>\<close>

text \<open>
  The passes of \<open>comms.py\<close> work on a list of \<open>fx.Node\<close> objects. A node is identified
  by its name, which is unique inside one fx graph; \<open>tuple_sorted\<close> orders nodes by
  that name. The type variable \<open>'n\<close> (a linear order) stands for the node names.

  Of a node the code reads
  \<^item> \<open>node.args\<close>, the nodes it consumes (a tuple),
  \<^item> \<open>node.users\<close>, the nodes that consume it (the keys of a dict, hence without
    repetition and in a fixed order),
  \<^item> \<open>node.meta["fusion_meta"].snode\<close>, the scheduler node, whose field \<open>node\<close> is an IR
    node; the code only asks whether that IR node is an \<open>ir.Wait\<close> or an
    \<open>ir.CollectiveKernel\<close>,
  \<^item> \<open>get_runtime_snode(snode)\<close>, the estimated runtime, from an estimator that is not
    part of this file; it is kept as an attribute of the scheduler node.

  A scheduler node is an object of its own: \<open>dumb_reordering\<close> returns scheduler nodes, and
  \<open>decide_global_ordering_comms\<close> asks one for its name (\<open>get_name()\<close>). The field
  \<open>get_name\<close> of the record \<open>snode\<close> is that name, so that two scheduler nodes of the same
  kind and the same runtime are still two values.

  A node whose \<open>meta\<close> has no key \<open>"fusion_meta"\<close> has \<open>fusion_meta g n = None\<close>; reading
  the key then raises \<open>KeyError\<close>.

  Runtimes are floats in the code and rationals here; the code adds them, subtracts
  them, halves them and compares them. The dict \<open>buf_uses\<close> of \<open>smart_reordering\<close> is
  filled and never read; it has no counterpart here.
\<close>

text \<open>Modelled from the spec: the classes \<open>ir.Wait\<close> and \<open>ir.CollectiveKernel\<close> are declared
  in \<open>ir.py\<close>, which is not part of this file. By section 3 of the specification a
  node is of exactly one of three kinds (CommStart, Wait, Compute), so an IR node is an
  instance of at most one of the two classes.\<close>

datatype ir = CollectiveKernel | Wait | Other

record 'n snode =
  get_name :: 'n
  ir_node :: ir
  get_runtime_snode :: rat

record 'n graph =
  args :: "'n \<Rightarrow> 'n list"
  users :: "'n \<Rightarrow> 'n list"
  fusion_meta :: "'n \<Rightarrow> 'n snode option"

datatype error = KeyError | AssertionError

text \<open>\<open>isinstance(node.meta["fusion_meta"].snode.node, cls)\<close>, with the \<open>KeyError\<close> of a
  missing key.\<close>

definition isinstance_snode :: "'n graph \<Rightarrow> 'n \<Rightarrow> ir \<Rightarrow> error + bool" where
  "isinstance_snode g node cls =
     (case fusion_meta g node of
        None \<Rightarrow> Inl KeyError
      | Some sn \<Rightarrow> Inr (ir_node sn = cls))"

text \<open>The two tests the passes make on a node, as predicates (false when the key is missing).\<close>

definition is_wait :: "'n graph \<Rightarrow> 'n \<Rightarrow> bool" where
  "is_wait g n = (isinstance_snode g n Wait = Inr True)"

definition is_comm :: "'n graph \<Rightarrow> 'n \<Rightarrow> bool" where
  "is_comm g n = (isinstance_snode g n CollectiveKernel = Inr True)"

text \<open>\<open>tuple_sorted\<close>: the elements of a collection, sorted by name. It is applied to
  sets (no repetition; \<open>tuple_sorted_set\<close>) and, in \<open>raise_comms\<close>, to a list.\<close>

definition tuple_sorted :: "('n::linorder) list \<Rightarrow> 'n list" where
  "tuple_sorted x = sort x"

definition tuple_sorted_set :: "('n::linorder) set \<Rightarrow> 'n list" where
  "tuple_sorted_set x = sorted_list_of_set x"

section \<open>The Wait Sinker\<close>

text \<open>The inner loop of \<open>sink_waits\<close>: over a snapshot of the pending waits in name
  order, every wait that has \<open>node\<close> among its users is appended to \<open>new_result\<close> and
  removed from \<open>cur_waits\<close>.\<close>

fun release_waits :: "'n graph \<Rightarrow> 'n \<Rightarrow> 'n list \<Rightarrow> 'n list \<times> 'n set \<Rightarrow> 'n list \<times> 'n set" where
  "release_waits g node [] st = st"
| "release_waits g node (wait # ws) (new_result, cur_waits) =
     (if node \<in> set (users g wait)
      then release_waits g node ws (new_result @ [wait], cur_waits - {wait})
      else release_waits g node ws (new_result, cur_waits))"

fun sink_loop :: "('n::linorder) graph \<Rightarrow> 'n list \<Rightarrow> 'n list \<times> 'n set \<Rightarrow> error + 'n list \<times> 'n set" where
  "sink_loop g [] st = Inr st"
| "sink_loop g (node # rest) (new_result, cur_waits) =
     (case isinstance_snode g node Wait of
        Inl e \<Rightarrow> Inl e
      | Inr True \<Rightarrow> sink_loop g rest (new_result, insert node cur_waits)
      | Inr False \<Rightarrow>
          (case release_waits g node (tuple_sorted_set cur_waits) (new_result, cur_waits) of
             (new_result', cur_waits') \<Rightarrow> sink_loop g rest (new_result' @ [node], cur_waits')))"

definition sink_waits :: "('n::linorder) graph \<Rightarrow> 'n list \<Rightarrow> error + 'n list" where
  "sink_waits g result =
     (case sink_loop g result ([], {}) of
        Inl e \<Rightarrow> Inl e
      | Inr (new_result, cur_waits) \<Rightarrow> Inr (new_result @ tuple_sorted_set cur_waits))"

section \<open>The Communication Raiser\<close>

text \<open>The \<open>while\<close> loop of \<open>raise_comms\<close>: as long as some pending communication has
  \<open>node\<close> among its args, the head of the queue is popped and appended.\<close>

fun release_comms :: "'n graph \<Rightarrow> 'n \<Rightarrow> 'n list \<Rightarrow> 'n list \<Rightarrow> 'n list \<times> 'n list" where
  "release_comms g node [] new_result = ([], new_result)"
| "release_comms g node (comm # cs) new_result =
     (if \<exists>c \<in> set (comm # cs). node \<in> set (args g c)
      then release_comms g node cs (new_result @ [comm])
      else (comm # cs, new_result))"

fun raise_loop :: "'n graph \<Rightarrow> 'n list \<Rightarrow> 'n list \<times> 'n list \<Rightarrow> error + 'n list \<times> 'n list" where
  "raise_loop g [] st = Inr st"
| "raise_loop g (node # rest) (new_result, cur_comms) =
     (case isinstance_snode g node CollectiveKernel of
        Inl e \<Rightarrow> Inl e
      | Inr True \<Rightarrow> raise_loop g rest (new_result, cur_comms @ [node])
      | Inr False \<Rightarrow>
          (case release_comms g node cur_comms new_result of
             (cur_comms', new_result') \<Rightarrow> raise_loop g rest (new_result' @ [node], cur_comms')))"

definition raise_comms :: "('n::linorder) graph \<Rightarrow> 'n list \<Rightarrow> error + 'n list" where
  "raise_comms g result =
     (case raise_loop g (rev result) ([], []) of
        Inl e \<Rightarrow> Inl e
      | Inr (new_result, cur_comms) \<Rightarrow>
          if length cur_comms \<le> 1
          then Inr (rev (new_result @ tuple_sorted cur_comms))
          else Inl AssertionError)"

section \<open>Ancestors and descendants\<close>

text \<open>\<open>get_ancestors\<close> and \<open>get_descendants\<close> are the same breadth-first loop, over
  \<open>node.args\<close> and over \<open>node.users\<close>. \<open>visit\<close> is the innermost \<open>for\<close> (over the
  neighbours of one node), \<open>expand\<close> the \<open>for\<close> over \<open>cur_nodes\<close>, and \<open>closure_loop\<close>
  the \<open>while\<close>, which does not return on a graph with infinitely many reachable
  nodes.\<close>

fun visit :: "'n list \<Rightarrow> 'n set \<times> 'n list \<Rightarrow> 'n set \<times> 'n list" where
  "visit [] st = st"
| "visit (inp # inps) (seen, new_nodes) =
     (if inp \<notin> seen then visit inps (insert inp seen, new_nodes @ [inp])
      else visit inps (seen, new_nodes))"

fun expand :: "('n \<Rightarrow> 'n list) \<Rightarrow> 'n list \<Rightarrow> 'n set \<times> 'n list \<Rightarrow> 'n set \<times> 'n list" where
  "expand nbrs [] st = st"
| "expand nbrs (node # rest) st = expand nbrs rest (visit (nbrs node) st)"

partial_function (option) closure_loop :: "('n \<Rightarrow> 'n list) \<Rightarrow> 'n list \<Rightarrow> 'n set \<Rightarrow> 'n set option" where
  "closure_loop nbrs cur_nodes seen =
     (if cur_nodes = [] then Some seen
      else case expand nbrs cur_nodes (seen, []) of
             (seen', new_nodes) \<Rightarrow> closure_loop nbrs new_nodes seen')"

declare closure_loop.simps [code]

definition get_ancestors :: "'n graph \<Rightarrow> 'n \<Rightarrow> 'n set option" where
  "get_ancestors g node = closure_loop (args g) [node] {}"

definition get_descendants :: "'n graph \<Rightarrow> 'n \<Rightarrow> 'n set option" where
  "get_descendants g node = closure_loop (users g) [node] {}"

section \<open>The Global Communication Orderer\<close>

text \<open>Modelled from the spec: \<open>BaseSchedulerNode.add_mutation_dep\<close> and \<open>WeakDep\<close> belong to
  \<open>scheduler.py\<close> and \<open>dependencies.py\<close>, which are not part of this file, and so is the
  construction of the fx graph from the scheduler nodes. By section 4.2 of the
  specification the call adds a synthetic ordering edge from the earlier to the later
  communication node, which every schedule must respect, and is idempotent; by
  section 4.5 the in-degree of a node counts the synthetic edges too. In the graph
  the schedulers read, the edge is therefore an arg of the later node and a user of
  the earlier one.\<close>

definition add_mutation_dep :: "'n graph \<Rightarrow> 'n \<Rightarrow> 'n \<Rightarrow> 'n graph" where
  "add_mutation_dep g later earlier =
     g\<lparr>args := (args g)(later :=
          (if earlier \<in> set (args g later) then args g later else args g later @ [earlier])),
       users := (users g)(earlier :=
          (if later \<in> set (users g earlier) then users g earlier else users g earlier @ [later]))\<rparr>"

text \<open>\<open>decide_global_ordering_comms\<close>: every communication node but the first gets a
  dependency on the communication node before it in the list.\<close>

definition decide_global_ordering_comms :: "'n graph \<Rightarrow> 'n list \<Rightarrow> 'n graph" where
  "decide_global_ordering_comms g nodes =
     (let comm_nodes = filter (is_comm g) nodes
      in fold (\<lambda>i g. add_mutation_dep g (comm_nodes ! i) (comm_nodes ! (i - 1)))
           [1 ..< length comm_nodes] g)"

section \<open>The Baseline Scheduler\<close>

text \<open>\<open>dumb_reordering\<close> returns the scheduler nodes of the reordered fx nodes.\<close>

definition dumb_reordering :: "('n::linorder) graph \<Rightarrow> 'n list \<Rightarrow> error + 'n snode list" where
  "dumb_reordering g nodes0 =
     (let nodes = filter (\<lambda>node. fusion_meta g node \<noteq> None) nodes0
      in case sink_waits g nodes of Inl e \<Rightarrow> Inl e | Inr nodes1 \<Rightarrow>
         case raise_comms g nodes1 of Inl e \<Rightarrow> Inl e | Inr nodes2 \<Rightarrow>
         Inr (map (\<lambda>node. the (fusion_meta g node)) nodes2))"

section \<open>The Overlap Scheduler\<close>

text \<open>The mutable state of \<open>smart_reordering\<close> that its local functions \<open>add_node\<close> and
  \<open>add_all_nodes\<close> share: the dict \<open>indeg\<close>, the sets \<open>free_nodes\<close> and \<open>unused_nodes\<close>, and
  the list \<open>result\<close>.\<close>

record 'n sched =
  indeg :: "'n \<Rightarrow> int option"
  free_nodes :: "'n set"
  unused_nodes :: "'n set"
  result :: "'n list"

text \<open>A computation of the scheduler either does not return (\<open>None\<close>), raises, or
  returns a value.\<close>

type_synonym 'a comp = "(error + 'a) option"

definition and_then :: "'a comp \<Rightarrow> ('a \<Rightarrow> 'b comp) \<Rightarrow> 'b comp" where
  "and_then m f = (case m of None \<Rightarrow> None | Some (Inl e) \<Rightarrow> Some (Inl e) | Some (Inr x) \<Rightarrow> f x)"

text \<open>The body of \<open>for user in node.users\<close> in \<open>add_node\<close>.\<close>

definition release_user :: "'n \<Rightarrow> 'n sched \<Rightarrow> 'n sched" where
  "release_user user st =
     (case indeg st user of
        None \<Rightarrow> st
      | Some d \<Rightarrow>
          if d - 1 = 0
          then st\<lparr>indeg := (indeg st)(user \<mapsto> d - 1), free_nodes := insert user (free_nodes st)\<rparr>
          else st\<lparr>indeg := (indeg st)(user \<mapsto> d - 1)\<rparr>)"

definition add_node :: "'n graph \<Rightarrow> 'n \<Rightarrow> 'n sched \<Rightarrow> error + 'n sched" where
  "add_node g node st =
     (if node \<notin> unused_nodes st then Inl AssertionError
      else if node \<notin> free_nodes st then Inl AssertionError
      else Inr (fold release_user (users g node)
             (st\<lparr>free_nodes := free_nodes st - {node},
                 unused_nodes := unused_nodes st - {node},
                 result := result st @ [node]\<rparr>)))"

text \<open>One run of the \<open>for\<close> loop inside the \<open>while\<close> of \<open>add_all_nodes\<close>, over a snapshot
  of \<open>all_nodes\<close> in name order.\<close>

fun add_free :: "'n graph \<Rightarrow> 'n list \<Rightarrow> 'n sched \<times> 'n set \<Rightarrow> error + 'n sched \<times> 'n set" where
  "add_free g [] s = Inr s"
| "add_free g (node # rest) (st, all_nodes) =
     (if node \<in> free_nodes st
      then (case add_node g node st of
              Inl e \<Rightarrow> Inl e
            | Inr st' \<Rightarrow> add_free g rest (st', all_nodes - {node}))
      else add_free g rest (st, all_nodes))"

text \<open>The \<open>while len(all_nodes) > 0\<close> loop. When a run of the inner loop finds no free
  node the state is unchanged and the loop runs forever: the value is \<open>None\<close>.\<close>

partial_function (option) add_all_loop :: "('n::linorder) graph \<Rightarrow> 'n sched \<Rightarrow> 'n set \<Rightarrow> 'n sched comp" where
  "add_all_loop g st all_nodes =
     (if all_nodes = {} then Some (Inr st)
      else case add_free g (tuple_sorted_set all_nodes) (st, all_nodes) of
             Inl e \<Rightarrow> Some (Inl e)
           | Inr (st', all_nodes') \<Rightarrow> add_all_loop g st' all_nodes')"

declare add_all_loop.simps [code]

text \<open>\<open>add_all_nodes\<close> takes the set of its argument (\<open>all_nodes = set(nodes)\<close>); the callers
  pass a set, or a list made from a set.\<close>

definition add_all_nodes :: "('n::linorder) graph \<Rightarrow> 'n set \<Rightarrow> 'n sched \<Rightarrow> 'n sched comp" where
  "add_all_nodes g nodes st =
     (if \<not> nodes \<subseteq> unused_nodes st then Some (Inl AssertionError)
      else add_all_loop g st nodes)"

text \<open>\<open>get_runtime_fx\<close> reads \<open>node.meta["fusion_meta"].snode\<close>.\<close>

definition get_runtime_fx :: "'n graph \<Rightarrow> 'n \<Rightarrow> error + rat" where
  "get_runtime_fx g node =
     (case fusion_meta g node of None \<Rightarrow> Inl KeyError | Some sn \<Rightarrow> Inr (get_runtime_snode sn))"

text \<open>\<open>sum([get_runtime_fx(node) for node in priority1])\<close>.\<close>

fun sum_runtime :: "'n graph \<Rightarrow> 'n list \<Rightarrow> error + rat" where
  "sum_runtime g [] = Inr 0"
| "sum_runtime g (node # rest) =
     (case get_runtime_fx g node of
        Inl e \<Rightarrow> Inl e
      | Inr c \<Rightarrow> (case sum_runtime g rest of Inl e \<Rightarrow> Inl e | Inr t \<Rightarrow> Inr (c + t)))"

text \<open>\<open>earliest_comm_descendant\<close>: the index of the first communication node that has
  \<open>node\<close> among its ancestors, or \<open>len(comm_nodes)\<close>.\<close>

definition earliest_comm_descendant :: "'n list \<Rightarrow> ('n \<Rightarrow> 'n set) \<Rightarrow> 'n \<Rightarrow> nat" where
  "earliest_comm_descendant comm_nodes comm_ancestors node =
     length (takeWhile (\<lambda>c. node \<notin> comm_ancestors c) comm_nodes)"

text \<open>The \<open>for node in overlappable_nodes\<close> loop of Priority 2, on the scheduler state
  and \<open>total_cost\<close>.\<close>

fun fill_overlap :: "'n graph \<Rightarrow> rat \<Rightarrow> 'n list \<Rightarrow> 'n sched \<times> rat \<Rightarrow> error + 'n sched \<times> rat" where
  "fill_overlap g comm_cost [] s = Inr s"
| "fill_overlap g comm_cost (node # rest) (st, total_cost) =
     (if total_cost \<ge> comm_cost then Inr (st, total_cost)
      else case isinstance_snode g node CollectiveKernel of
             Inl e \<Rightarrow> Inl e
           | Inr True \<Rightarrow> fill_overlap g comm_cost rest (st, total_cost)
           | Inr False \<Rightarrow>
               (case get_runtime_fx g node of
                  Inl e \<Rightarrow> Inl e
                | Inr runtime_cost \<Rightarrow>
                    if comm_cost - total_cost \<le> runtime_cost / 2
                    then fill_overlap g comm_cost rest (st, total_cost)
                    else (case add_node g node st of
                            Inl e \<Rightarrow> Inl e
                          | Inr st' \<Rightarrow> fill_overlap g comm_cost rest (st', total_cost + runtime_cost))))"

text \<open>Priority 2 as a whole (source lines 205 to 236): the state and \<open>total_cost\<close> after
  it.\<close>

definition priority2 ::
  "('n::linorder) graph \<Rightarrow> 'n list \<Rightarrow> ('n \<Rightarrow> 'n set) \<Rightarrow> ('n \<Rightarrow> 'n set) \<Rightarrow> 'n \<Rightarrow> rat \<Rightarrow>
   'n sched \<times> rat \<Rightarrow> error + 'n sched \<times> rat" where
  "priority2 g comm_nodes comm_ancestors comm_descendants prev comm_cost s =
     (case s of (st, total_cost) \<Rightarrow>
        if total_cost \<ge> comm_cost then Inr (st, total_cost)
        else fill_overlap g comm_cost
               (sort_key (earliest_comm_descendant comm_nodes comm_ancestors)
                  (tuple_sorted_set (free_nodes st - comm_descendants prev)))
               (st, total_cost))"

text \<open>The body of \<open>for idx in range(1, len(comm_ancestors))\<close>, on the scheduler state and
  \<open>rolled_over_compute\<close>.\<close>

definition overlap_step ::
  "('n::linorder) graph \<Rightarrow> 'n list \<Rightarrow> ('n \<Rightarrow> 'n set) \<Rightarrow> ('n \<Rightarrow> 'n set) \<Rightarrow> nat \<Rightarrow>
   'n sched \<times> rat \<Rightarrow> ('n sched \<times> rat) comp" where
  "overlap_step g comm_nodes comm_ancestors comm_descendants idx s =
     (case s of (st, rolled_over_compute) \<Rightarrow>
        let prev = comm_nodes ! (idx - 1);
            next = comm_nodes ! idx;
            is_comm_blocking = (comm_descendants prev \<inter> comm_ancestors next \<noteq> {});
            priority1 = unused_nodes st \<inter> (comm_ancestors next - comm_descendants prev)
        in and_then (Some (sum_runtime g (tuple_sorted_set priority1))) (\<lambda>batch_cost.
           and_then (Some (get_runtime_fx g prev)) (\<lambda>comm_cost.
           and_then (add_all_nodes g priority1 st) (\<lambda>st1.
           let group1_cost = rolled_over_compute + batch_cost in
           and_then (Some (priority2 g comm_nodes comm_ancestors comm_descendants prev comm_cost
                             (st1, group1_cost))) (\<lambda>(st2, total_cost).
           let rollable_compute = total_cost - group1_cost;
               rolled_over_compute' = (if is_comm_blocking then 0 else rollable_compute);
               priority3 = unused_nodes st2 \<inter> comm_ancestors next
           in and_then (add_all_nodes g (insert next priority3) st2) (\<lambda>st3.
              Some (Inr (st3, rolled_over_compute'))))))))"

fun overlap_loop ::
  "('n::linorder) graph \<Rightarrow> 'n list \<Rightarrow> ('n \<Rightarrow> 'n set) \<Rightarrow> ('n \<Rightarrow> 'n set) \<Rightarrow> nat list \<Rightarrow>
   'n sched \<times> rat \<Rightarrow> ('n sched \<times> rat) comp" where
  "overlap_loop g comm_nodes comm_ancestors comm_descendants [] s = Some (Inr s)"
| "overlap_loop g comm_nodes comm_ancestors comm_descendants (idx # idxs) s =
     and_then (overlap_step g comm_nodes comm_ancestors comm_descendants idx s)
       (overlap_loop g comm_nodes comm_ancestors comm_descendants idxs)"

text \<open>The dicts \<open>comm_ancestors\<close> and \<open>comm_descendants\<close>: one traversal per communication
  node; the dict is read only at communication nodes.\<close>

fun build_dict :: "('n \<Rightarrow> 'v option) \<Rightarrow> 'n list \<Rightarrow> ('n \<Rightarrow> 'v option) option" where
  "build_dict f [] = Some (\<lambda>k. None)"
| "build_dict f (k # ks) =
     (case f k of None \<Rightarrow> None
      | Some v \<Rightarrow> (case build_dict f ks of None \<Rightarrow> None | Some d \<Rightarrow> Some (\<lambda>x. if x = k then Some v else d x)))"

text \<open>The first loop over \<open>nodes\<close> (lines 139 to 147): the in-degree of every node,
  counted over the users of the nodes of the list.\<close>

definition count_user :: "'n \<Rightarrow> ('n \<Rightarrow> int option) \<Rightarrow> ('n \<Rightarrow> int option)" where
  "count_user user deg = (case deg user of None \<Rightarrow> deg | Some d \<Rightarrow> deg(user \<mapsto> d + 1))"

definition init_indeg :: "'n graph \<Rightarrow> 'n list \<Rightarrow> ('n \<Rightarrow> int option)" where
  "init_indeg g nodes =
     fold (\<lambda>node deg. fold count_user (users g node) deg) nodes
       (\<lambda>k. if k \<in> set nodes then Some 0 else None)"

definition init_sched :: "'n graph \<Rightarrow> 'n list \<Rightarrow> 'n sched" where
  "init_sched g nodes =
     \<lparr> indeg = init_indeg g nodes,
       free_nodes = {node \<in> set nodes. init_indeg g nodes node = Some 0},
       unused_nodes = set nodes,
       result = [] \<rparr>"

text \<open>\<open>smart_reordering\<close>. After the filter of its first line every node of \<open>nodes\<close>
  carries \<open>fusion_meta\<close>, so the test for \<open>ir.CollectiveKernel\<close> in the loop that collects
  \<open>comm_nodes\<close> does not raise. \<open>len(comm_ancestors)\<close> is the number of keys of the
  dict, that is of different communication nodes.\<close>

definition smart_reordering :: "('n::linorder) graph \<Rightarrow> 'n list \<Rightarrow> 'n list comp" where
  "smart_reordering g nodes0 =
     (let nodes = filter (\<lambda>node. fusion_meta g node \<noteq> None) nodes0;
          comm_nodes = filter (is_comm g) nodes
      in if comm_nodes = [] then Some (Inr nodes)
         else case build_dict (get_ancestors g) comm_nodes of None \<Rightarrow> None | Some anc \<Rightarrow>
              case build_dict (get_descendants g) comm_nodes of None \<Rightarrow> None | Some desc \<Rightarrow>
              let comm_ancestors = (\<lambda>c. the (anc c));
                  comm_descendants = (\<lambda>c. the (desc c))
              in and_then (add_all_nodes g (insert (comm_nodes ! 0) (comm_ancestors (comm_nodes ! 0)))
                             (init_sched g nodes)) (\<lambda>st.
                 and_then (overlap_loop g comm_nodes comm_ancestors comm_descendants
                             [1 ..< length (remdups comm_nodes)] (st, 0)) (\<lambda>(st, rolled_over_compute).
                 and_then (add_all_nodes g (unused_nodes st) st) (\<lambda>st.
                 and_then (Some (sink_waits g (result st))) (\<lambda>result.
                 Some (raise_comms g result))))))"

section \<open>Order of a sequence\<close>

text \<open>\<open>precedes a b xs\<close>: some occurrence of \<open>a\<close> in \<open>xs\<close> is followed, later in \<open>xs\<close>, by
  an occurrence of \<open>b\<close>.\<close>

fun precedes :: "'a \<Rightarrow> 'a \<Rightarrow> 'a list \<Rightarrow> bool" where
  "precedes a b [] = False"
| "precedes a b (x # xs) = ((x = a \<and> b \<in> set xs) \<or> precedes a b xs)"

text \<open>A sequence is a topological order of the graph restricted to its own nodes:
  every arg of a node that is itself in the sequence stands before the node.\<close>

definition topological :: "'n graph \<Rightarrow> 'n list \<Rightarrow> bool" where
  "topological g xs = (\<forall>v\<in>set xs. \<forall>u\<in>set (args g v). u \<in> set xs \<longrightarrow> precedes u v xs)"

text \<open>The edges of the graph among the nodes of a list, as the scheduler counts them
  (through \<open>users\<close>).\<close>

definition users_edges :: "'n graph \<Rightarrow> 'n list \<Rightarrow> ('n \<times> 'n) set" where
  "users_edges g N = {(u, v). u \<in> set N \<and> v \<in> set N \<and> v \<in> set (users g u)}"

section \<open>Properties as the specification words them\<close>

text \<open>The placement the specification promises for a wait \<open>w\<close> in a sunk sequence \<open>r\<close>:
  \<open>w\<close> is the element directly before the earliest element of \<open>r\<close> that is among its
  users, or the last element of \<open>r\<close> when no element of \<open>r\<close> uses it.\<close>

definition wait_sinker_claim :: "'n graph \<Rightarrow> 'n list \<Rightarrow> 'n \<Rightarrow> bool" where
  "wait_sinker_claim g r w =
     (let pre = takeWhile (\<lambda>n. n \<notin> set (users g w)) r in
      if length pre < length r then pre \<noteq> [] \<and> last pre = w
      else r \<noteq> [] \<and> last r = w)"

text \<open>The placement that \<open>sink_waits\<close> gives a wait \<open>w\<close> in its output \<open>r\<close>: with \<open>pre\<close> as above,
  the part of \<open>r\<close> before the earliest element that is among the users of \<open>w\<close> (all of \<open>r\<close>
  when no element uses it), \<open>w\<close> is an element of \<open>pre\<close>, and every element of \<open>pre\<close> from
  \<open>w\<close> on is a wait. So \<open>w\<close> stands before its earliest user, with nothing but waits in
  between.\<close>

definition wait_before_earliest_user :: "'n graph \<Rightarrow> 'n list \<Rightarrow> 'n \<Rightarrow> bool" where
  "wait_before_earliest_user g r w =
     (let pre = takeWhile (\<lambda>n. n \<notin> set (users g w)) r in
      w \<in> set pre \<and> list_all (is_wait g) (dropWhile (\<lambda>n. n \<noteq> w) pre))"

text \<open>The placement the specification promises for a communication node \<open>c\<close> in a raised
  sequence \<open>r\<close>: with \<open>pre\<close> the part of \<open>r\<close> up to and including the last node that is
  among the args of \<open>c\<close>, the node \<open>c\<close> is the element directly after \<open>pre\<close>; when no
  node of \<open>r\<close> is among its args, \<open>c\<close> is the first element of \<open>r\<close>.\<close>

definition comm_raiser_claim :: "'n graph \<Rightarrow> 'n list \<Rightarrow> 'n \<Rightarrow> bool" where
  "comm_raiser_claim g r c =
     (let pre = rev (dropWhile (\<lambda>n. n \<notin> set (args g c)) (rev r))
      in if pre = [] then r \<noteq> [] \<and> hd r = c
         else length pre < length r \<and> r ! length pre = c)"

section \<open>Shapes and invariants used in the proofs\<close>

text \<open>The shape of the output of \<open>sink_waits\<close>: the first node after a wait that is not a
  wait, if there is one, is among the users of the wait.\<close>

fun sunk :: "'n graph \<Rightarrow> 'n list \<Rightarrow> bool" where
  "sunk g [] = True"
| "sunk g (x # xs) =
     ((is_wait g x \<longrightarrow> (case find (\<lambda>n. \<not> is_wait g n) xs of None \<Rightarrow> True | Some n \<Rightarrow> n \<in> set (users g x)))
      \<and> sunk g xs)"

text \<open>The shape of the list \<open>new_result\<close> built by \<open>raise_comms\<close> (the output reversed): a
  communication node directly followed by another kind of node has it among its args.\<close>

fun raised :: "'n graph \<Rightarrow> 'n list \<Rightarrow> bool" where
  "raised g (c # n # xs) =
     ((is_comm g c \<and> \<not> is_comm g n \<longrightarrow> n \<in> set (args g c)) \<and> raised g (n # xs))"
| "raised g [c] = True"
| "raised g [] = True"

text \<open>The state of the Overlap Scheduler over the node list \<open>N\<close>: \<open>indeg\<close> counts the
  unscheduled nodes of \<open>N\<close> that have the node among their users, a free node is
  unscheduled and has in-degree 0, \<open>result\<close> lists the scheduled nodes once each, and
  every node of \<open>N\<close> that has a scheduled node among its users was scheduled before
  it.\<close>

definition sched_inv :: "'n graph \<Rightarrow> 'n list \<Rightarrow> 'n sched \<Rightarrow> bool" where
  "sched_inv g N st =
     ((\<forall>v. indeg st v =
            (if v \<in> set N
             then Some (int (card {u \<in> set N. u \<in> unused_nodes st \<and> v \<in> set (users g u)}))
             else None)) \<and>
      (\<forall>v\<in>free_nodes st. v \<in> unused_nodes st \<and> indeg st v = Some 0) \<and>
      unused_nodes st \<subseteq> set N \<and>
      set (result st) = set N - unused_nodes st \<and>
      distinct (result st) \<and>
      (\<forall>v\<in>set (result st). \<forall>u\<in>set N. v \<in> set (users g u) \<longrightarrow> precedes u v (result st)))"

section \<open>Concrete graphs\<close>

text \<open>A graph given by a table: one row per node with the kind and the runtime of its
  scheduler node (or \<open>None\<close> for a node without \<open>fusion_meta\<close>) and its args. Every row
  has a scheduler node of its own, named after the row. The users of a node are the rows
  that have it among their args, in table order.\<close>

definition graph_of :: "('n \<times> (ir \<times> rat) option \<times> 'n list) list \<Rightarrow> 'n graph" where
  "graph_of tbl =
     \<lparr> args = (\<lambda>n. case map_of tbl n of Some (m, as) \<Rightarrow> as | None \<Rightarrow> []),
       users = (\<lambda>n. map fst (filter (\<lambda>(u, m, as). n \<in> set as) tbl)),
       fusion_meta = (\<lambda>n. case map_of tbl n of
           Some (Some (k, c), as) \<Rightarrow> Some \<lparr> get_name = n, ir_node = k, get_runtime_snode = c \<rparr>
         | _ \<Rightarrow> None) \<rparr>"

definition mk :: "ir \<Rightarrow> rat \<Rightarrow> (ir \<times> rat) option" where
  "mk k c = Some (k, c)"

text \<open>A compute node 0 feeding a collective 1, its wait 2 and the consumer 4 of the
  wait, with two independent compute nodes 3 and 5.\<close>

definition g_frame :: "nat graph" where
  "g_frame = graph_of
     [(0, mk Other 1, []), (3, mk Other 1, []), (1, mk CollectiveKernel 1, [0]),
      (2, mk Wait 0, [1]), (5, mk Other 1, []), (4, mk Other 1, [2])]"

text \<open>Two collectives 0 and 1, their waits 2 and 3, and a compute node 4 that consumes
  both waits.\<close>

definition g_two_waits :: "nat graph" where
  "g_two_waits = graph_of
     [(0, mk CollectiveKernel 5, []), (1, mk CollectiveKernel 5, [0]),
      (2, mk Wait 0, [0]), (3, mk Wait 0, [1]), (4, mk Other 1, [2, 3])]"

text \<open>Two compute nodes 0 and 1 and two collectives: 2 consumes 1, and 3 consumes 0.\<close>

definition g_two_comms :: "nat graph" where
  "g_two_comms = graph_of
     [(0, mk Other 1, []), (1, mk Other 1, []), (2, mk CollectiveKernel 5, [1]),
      (3, mk CollectiveKernel 5, [0])]"

text \<open>A collective 0, its wait 1, a second wait 2 that consumes the first, and a
  compute node 3 that consumes the second wait.\<close>

definition g_wait_chain :: "nat graph" where
  "g_wait_chain = graph_of
     [(0, mk CollectiveKernel 5, []), (1, mk Wait 0, [0]), (2, mk Wait 0, [1]),
      (3, mk Other 1, [2])]"

text \<open>A compute node 0 and a placeholder 1 that carries no \<open>fusion_meta\<close>.\<close>

definition g_placeholder :: "nat graph" where
  "g_placeholder = graph_of [(1, None, []), (0, mk Other 1, [1])]"

text \<open>Two compute nodes that consume each other, and the same cycle beside a
  collective 0.\<close>

definition g_cycle :: "nat graph" where
  "g_cycle = graph_of [(0, mk Other 1, [1]), (1, mk Other 1, [0])]"

definition g_cycle_comm :: "nat graph" where
  "g_cycle_comm = graph_of
     [(0, mk CollectiveKernel 5, []), (1, mk Other 1, [2]), (2, mk Other 1, [1])]"

text \<open>The cycle of \<open>g_cycle_comm\<close> with the node 2 a placeholder: the cycle passes through
  a node that carries no \<open>fusion_meta\<close>.\<close>

definition g_cycle_placeholder :: "nat graph" where
  "g_cycle_placeholder = graph_of
     [(0, mk CollectiveKernel 5, []), (1, mk Other 1, [2]), (2, None, [1])]"

text \<open>Two collectives 0 and 2 of cost 1, a compute node 1 of cost 3 that the second
  collective consumes, and an independent compute node 3 of cost 1.\<close>

definition g_fill :: "nat graph" where
  "g_fill = graph_of
     [(0, mk CollectiveKernel 1, []), (1, mk Other 3, []), (2, mk CollectiveKernel 1, [0, 1]),
      (3, mk Other 1, [])]"

text \<open>The scenario of the specification: \<open>A\<close> feeds the collective \<open>C1\<close>, \<open>W1\<close> waits on
  \<open>C1\<close>, \<open>B\<close> consumes \<open>W1\<close>, the collective \<open>C2\<close> consumes \<open>B\<close> (and follows \<open>C1\<close> in the
  global order of communications), \<open>W2\<close> waits on \<open>C2\<close> and \<open>D\<close> consumes \<open>W2\<close>. Node names
  are strings in their lexicographic order.\<close>

definition g_scenario :: "string graph" where
  "g_scenario = graph_of
     [(''A'', mk Other 1, []), (''C1'', mk CollectiveKernel 5, [''A'']),
      (''W1'', mk Wait 0, [''C1'']), (''B'', mk Other 2, [''W1'']),
      (''C2'', mk CollectiveKernel 5, [''B'', ''C1'']), (''W2'', mk Wait 0, [''C2'']),
      (''D'', mk Other 1, [''W2''])]"

text \<open>The scenario graph before the Global Communication Orderer has run: \<open>C2\<close> has no
  edge from \<open>C1\<close> yet.\<close>

definition g_scenario_data :: "string graph" where
  "g_scenario_data = graph_of
     [(''A'', mk Other 1, []), (''C1'', mk CollectiveKernel 5, [''A'']),
      (''W1'', mk Wait 0, [''C1'']), (''B'', mk Other 2, [''W1'']),
      (''C2'', mk CollectiveKernel 5, [''B'']), (''W2'', mk Wait 0, [''C2'']),
      (''D'', mk Other 1, [''W2''])]"

section \<open>Lemmas on sequences and on the tests of a node\<close>

lemma isinstance_cases:
  obtains (err) "isinstance_snode g n c = Inl KeyError" | (yes) "isinstance_snode g n c = Inr True"
    | (no) "isinstance_snode g n c = Inr False"
proof (cases "fusion_meta g n")
  case None
  then show ?thesis using err by (simp add: isinstance_snode_def)
next
  case (Some sn)
  then show ?thesis using yes no by (cases "ir_node sn = c") (simp_all add: isinstance_snode_def)
qed

lemma is_comm_not_wait: "is_comm g n \<Longrightarrow> \<not> is_wait g n"
  by (auto simp: is_comm_def is_wait_def isinstance_snode_def split: option.splits)

lemma is_comm_meta: "is_comm g n \<Longrightarrow> fusion_meta g n \<noteq> None"
  by (auto simp: is_comm_def isinstance_snode_def split: option.splits)

lemma filter_comm_meta:
  "filter (is_comm g) (filter (\<lambda>node. fusion_meta g node \<noteq> None) nodes) = filter (is_comm g) nodes"
  by (induction nodes) (auto dest: is_comm_meta)

lemma set_tuple_sorted_set: "finite A \<Longrightarrow> set (tuple_sorted_set A) = A"
  by (simp add: tuple_sorted_set_def)

lemma tuple_sorted_set_props: "distinct (tuple_sorted_set A)" "set (tuple_sorted_set A) \<subseteq> A"
proof -
  show "distinct (tuple_sorted_set A)" by (simp add: tuple_sorted_set_def)
  show "set (tuple_sorted_set A) \<subseteq> A"
    by (cases "finite A") (simp_all add: tuple_sorted_set_def)
qed

lemma tuple_sorted_short: "length xs \<le> 1 \<Longrightarrow> tuple_sorted xs = xs"
  by (cases xs) (auto simp: tuple_sorted_def)

lemma tuple_sorted_set_idem:
  "sorted xs \<Longrightarrow> distinct xs \<Longrightarrow> tuple_sorted_set (set xs) = xs"
  by (simp add: tuple_sorted_set_def sorted_list_of_set_sort_remdups sorted_sort_id)

lemma tuple_sorted_set_filter_idem:
  "finite cw \<Longrightarrow> tuple_sorted_set (set (filter P (tuple_sorted_set cw))) = filter P (tuple_sorted_set cw)"
  by (intro tuple_sorted_set_idem) (simp_all add: tuple_sorted_set_def sorted_wrt_filter)

lemma find_append_Some: "find P xs = Some x \<Longrightarrow> find P (xs @ ys) = Some x"
  by (induction xs) (auto split: if_splits)

lemma find_append_None: "find P xs = None \<Longrightarrow> find P (xs @ ys) = find P ys"
  by (induction xs) (auto split: if_splits)

lemma find_last_Some: "xs \<noteq> [] \<Longrightarrow> P (last xs) \<Longrightarrow> \<exists>x. find P xs = Some x"
  by (induction xs) (auto split: if_splits)

lemma find_first_nth:
  "j < length xs \<Longrightarrow> P (xs ! j) \<Longrightarrow> \<forall>k<j. \<not> P (xs ! k) \<Longrightarrow> find P xs = Some (xs ! j)"
proof (induction xs arbitrary: j)
  case Nil
  then show ?case by simp
next
  case (Cons x xs)
  show ?case
  proof (cases j)
    case 0
    with Cons.prems show ?thesis by simp
  next
    case (Suc j')
    with Cons.prems have "\<not> P x" by auto
    moreover have "find P xs = Some (xs ! j')"
      using Cons.prems Suc by (intro Cons.IH) auto
    ultimately show ?thesis using Suc by simp
  qed
qed

lemma count_list_distinct: "distinct xs \<Longrightarrow> count_list xs x = (if x \<in> set xs then 1 else 0)"
  by (induction xs) auto

lemma sum_list_indicator:
  "(\<Sum>n\<leftarrow>ns. (if P n then 1 else 0)) = int (length (filter P ns))"
  by (induction ns) auto

text \<open>Two neighbours of a sequence that both satisfy \<open>P\<close> are neighbours in the filtered
  sequence.\<close>

lemma filter_neighbours:
  assumes "Suc i < length xs" "P (xs ! i)" "P (xs ! Suc i)"
  shows "\<exists>k. Suc k < length (filter P xs) \<and> filter P xs ! k = xs ! i \<and> filter P xs ! Suc k = xs ! Suc i"
proof -
  have i: "i < length xs" using assms(1) by simp
  have "xs = take i xs @ xs ! i # drop (Suc i) xs" using i by (rule id_take_nth_drop)
  moreover have "drop (Suc i) xs = xs ! Suc i # drop (Suc (Suc i)) xs"
    using assms(1) by (rule Cons_nth_drop_Suc[symmetric])
  ultimately have "xs = take i xs @ xs ! i # xs ! Suc i # drop (Suc (Suc i)) xs" by simp
  then have "filter P xs = filter P (take i xs @ xs ! i # xs ! Suc i # drop (Suc (Suc i)) xs)" by simp
  also have "\<dots> = filter P (take i xs) @ xs ! i # xs ! Suc i # filter P (drop (Suc (Suc i)) xs)"
    using assms(2,3) by simp
  finally have f: "filter P xs = filter P (take i xs) @ xs ! i # xs ! Suc i # filter P (drop (Suc (Suc i)) xs)" .
  let ?k = "length (filter P (take i xs))"
  have "Suc ?k < length (filter P xs)" by (subst f) simp
  moreover have "filter P xs ! ?k = xs ! i" by (subst f) (simp add: nth_append)
  moreover have "filter P xs ! Suc ?k = xs ! Suc i" by (subst f) (simp add: nth_append)
  ultimately show ?thesis by blast
qed

lemma precedes_append:
  "precedes a b (xs @ ys) = (precedes a b xs \<or> precedes a b ys \<or> (a \<in> set xs \<and> b \<in> set ys))"
  by (induction xs) auto

lemma precedes_in_set: "precedes a b xs \<Longrightarrow> a \<in> set xs \<and> b \<in> set xs"
  by (induction xs) auto

lemma precedes_filter: "precedes a b (filter P xs) = (P a \<and> P b \<and> precedes a b xs)"
  by (induction xs) (auto dest: precedes_in_set)

lemma precedes_map: "precedes a b xs \<Longrightarrow> precedes (f a) (f b) (map f xs)"
  by (induction xs) auto

lemma precedes_rev: "precedes a b (rev xs) = precedes b a xs"
  by (induction xs) (auto simp: precedes_append dest: precedes_in_set)

lemma precedes_irrefl: "distinct xs \<Longrightarrow> \<not> precedes a a xs"
  by (induction xs) auto

lemma precedes_asym: "distinct xs \<Longrightarrow> precedes a b xs \<Longrightarrow> \<not> precedes b a xs"
  by (induction xs) (auto dest: precedes_in_set)

lemma precedes_trans: "distinct xs \<Longrightarrow> precedes a b xs \<Longrightarrow> precedes b c xs \<Longrightarrow> precedes a c xs"
  by (induction xs) (auto dest: precedes_in_set)

lemma precedes_total:
  "a \<in> set xs \<Longrightarrow> b \<in> set xs \<Longrightarrow> a \<noteq> b \<Longrightarrow> precedes a b xs \<or> precedes b a xs"
  by (induction xs) auto

lemma precedes_nth:
  "precedes a b xs = (\<exists>i j. i < j \<and> j < length xs \<and> xs ! i = a \<and> xs ! j = b)"
proof (induction xs)
  case Nil
  then show ?case by simp
next
  case (Cons x xs)
  show ?case
  proof
    assume "precedes a b (x # xs)"
    then consider "x = a" "b \<in> set xs" | "precedes a b xs" by auto
    then show "\<exists>i j. i < j \<and> j < length (x # xs) \<and> (x # xs) ! i = a \<and> (x # xs) ! j = b"
    proof cases
      case 1
      then obtain k where "k < length xs" "xs ! k = b" by (auto simp: in_set_conv_nth)
      with 1 show ?thesis by (intro exI[of _ 0] exI[of _ "Suc k"]) simp
    next
      case 2
      with Cons.IH obtain i j where "i < j" "j < length xs" "xs ! i = a" "xs ! j = b" by blast
      then show ?thesis by (intro exI[of _ "Suc i"] exI[of _ "Suc j"]) simp
    qed
  next
    assume "\<exists>i j. i < j \<and> j < length (x # xs) \<and> (x # xs) ! i = a \<and> (x # xs) ! j = b"
    then obtain i j where ij: "i < j" "j < length (x # xs)" "(x # xs) ! i = a" "(x # xs) ! j = b" by blast
    then obtain j' where j: "j = Suc j'" by (cases j) auto
    show "precedes a b (x # xs)"
    proof (cases i)
      case 0
      with ij j show ?thesis by auto
    next
      case (Suc i')
      with ij j have "i' < j' \<and> j' < length xs \<and> xs ! i' = a \<and> xs ! j' = b" by simp
      with Cons.IH show ?thesis by auto
    qed
  qed
qed

lemma precedes_distinct_nth:
  assumes "distinct xs" "i < length xs" "j < length xs" "precedes (xs ! j) (xs ! i) xs"
  shows "j < i"
proof -
  from assms(4) obtain a b where ab: "a < b" "b < length xs" "xs ! a = xs ! j" "xs ! b = xs ! i"
    unfolding precedes_nth by blast
  with assms(1,2,3) have "a = j" "b = i" by (auto simp: nth_eq_iff_index_eq)
  with ab show ?thesis by simp
qed

text \<open>A chain of consecutive precedences orders all its members.\<close>

lemma chain_precedes:
  assumes "distinct res" "\<forall>k. Suc k < length cn \<longrightarrow> precedes (cn ! k) (cn ! Suc k) res"
  shows "i < j \<Longrightarrow> j < length cn \<Longrightarrow> precedes (cn ! i) (cn ! j) res"
proof (induction j)
  case 0
  then show ?case by simp
next
  case (Suc j)
  from Suc.prems assms(2) have last: "precedes (cn ! j) (cn ! Suc j) res" by simp
  show ?case
  proof (cases "i = j")
    case True
    with last show ?thesis by simp
  next
    case False
    with Suc.prems have "precedes (cn ! i) (cn ! j) res" by (intro Suc.IH) simp_all
    from precedes_trans[OF assms(1) this last] show ?thesis .
  qed
qed

lemma topological_filter: "topological g xs \<Longrightarrow> topological g (filter P xs)"
  by (auto simp: topological_def precedes_filter)

section \<open>The Wait Sinker: frame, shape and fixed point\<close>

lemma release_waits_eq:
  "release_waits g node ws (res, cw) =
     (res @ filter (\<lambda>w. node \<in> set (users g w)) ws,
      cw - set (filter (\<lambda>w. node \<in> set (users g w)) ws))"
  by (induction ws arbitrary: res cw) auto

lemma sink_loop_Cons_wait:
  "is_wait g node \<Longrightarrow> sink_loop g (node # rest) (res, cw) = sink_loop g rest (res, insert node cw)"
  by (simp add: is_wait_def)

lemma sink_loop_Cons_other:
  "isinstance_snode g node Wait = Inr False \<Longrightarrow>
   sink_loop g (node # rest) (res, cw) =
     sink_loop g rest
       (res @ filter (\<lambda>w. node \<in> set (users g w)) (tuple_sorted_set cw) @ [node],
        cw - set (filter (\<lambda>w. node \<in> set (users g w)) (tuple_sorted_set cw)))"
  by (simp add: release_waits_eq)

lemma sink_loop_Cons_err:
  "isinstance_snode g node Wait = Inl e \<Longrightarrow> sink_loop g (node # rest) (res, cw) = Inl e"
  by simp

text \<open>An invariant rule for the loop of \<open>sink_waits\<close>; \<open>ps\<close> is the part of the input
  already consumed.\<close>

lemma sink_loop_invariant:
  assumes run: "sink_loop g xs (res, cw) = Inr (res', cw')"
    and init: "P ps res cw"
    and wait: "\<And>ps res cw w. P ps res cw \<Longrightarrow> is_wait g w \<Longrightarrow> P (ps @ [w]) res (insert w cw)"
    and other: "\<And>ps res cw n. P ps res cw \<Longrightarrow> isinstance_snode g n Wait = Inr False \<Longrightarrow>
        P (ps @ [n]) (res @ filter (\<lambda>w. n \<in> set (users g w)) (tuple_sorted_set cw) @ [n])
          (cw - set (filter (\<lambda>w. n \<in> set (users g w)) (tuple_sorted_set cw)))"
  shows "P (ps @ xs) res' cw'"
  using run init
proof (induction xs arbitrary: ps res cw)
  case Nil
  then show ?case by simp
next
  case (Cons node rest)
  show ?case
  proof (cases rule: isinstance_cases[of g node Wait])
    case err
    with Cons.prems show ?thesis by simp
  next
    case yes
    then have w: "is_wait g node" by (simp add: is_wait_def)
    from Cons.prems(1) have "sink_loop g rest (res, insert node cw) = Inr (res', cw')"
      by (simp only: sink_loop_Cons_wait[OF w])
    from Cons.IH[OF this wait[OF Cons.prems(2) w]] show ?thesis by simp
  next
    case no
    let ?ws = "filter (\<lambda>w. node \<in> set (users g w)) (tuple_sorted_set cw)"
    from Cons.prems(1) have "sink_loop g rest (res @ ?ws @ [node], cw - set ?ws) = Inr (res', cw')"
      by (simp only: sink_loop_Cons_other[OF no])
    from Cons.IH[OF this other[OF Cons.prems(2) no]] show ?thesis by simp
  qed
qed

lemma sink_loop_pending:
  assumes "sink_loop g xs (res, cw) = Inr (res', cw')" "finite cw" "\<forall>w\<in>cw. is_wait g w"
  shows "finite cw' \<and> (\<forall>w\<in>cw'. is_wait g w)"
  using sink_loop_invariant[where P = "\<lambda>ps res cw. finite cw \<and> (\<forall>w\<in>cw. is_wait g w)" and ps = "[]", OF assms(1)]
    assms(2,3) by auto

lemma sink_loop_frame:
  "sink_loop g xs (res, cw) = Inr (res', cw') \<Longrightarrow> finite cw \<Longrightarrow> \<forall>w\<in>cw. is_wait g w \<Longrightarrow>
     filter (\<lambda>n. \<not> is_wait g n) res' = filter (\<lambda>n. \<not> is_wait g n) res @ filter (\<lambda>n. \<not> is_wait g n) xs
     \<and> finite cw' \<and> (\<forall>w\<in>cw'. is_wait g w)"
proof (induction xs arbitrary: res cw)
  case Nil
  then show ?case by simp
next
  case (Cons node rest)
  show ?case
  proof (cases rule: isinstance_cases[of g node Wait])
    case err
    with Cons.prems show ?thesis by simp
  next
    case yes
    then have w: "is_wait g node" by (simp add: is_wait_def)
    from Cons.prems(1) have "sink_loop g rest (res, insert node cw) = Inr (res', cw')"
      by (simp only: sink_loop_Cons_wait[OF w])
    from Cons.IH[OF this] Cons.prems w show ?thesis by simp
  next
    case no
    then have nw: "\<not> is_wait g node" by (simp add: is_wait_def)
    let ?ws = "filter (\<lambda>w. node \<in> set (users g w)) (tuple_sorted_set cw)"
    from Cons.prems(1) have "sink_loop g rest (res @ ?ws @ [node], cw - set ?ws) = Inr (res', cw')"
      by (simp only: sink_loop_Cons_other[OF no])
    from Cons.IH[OF this] Cons.prems(2,3)
    have *: "filter (\<lambda>n. \<not> is_wait g n) res' =
          filter (\<lambda>n. \<not> is_wait g n) (res @ ?ws @ [node]) @ filter (\<lambda>n. \<not> is_wait g n) rest"
       and **: "finite cw' \<and> (\<forall>w\<in>cw'. is_wait g w)" by auto
    have "filter (\<lambda>n. \<not> is_wait g n) ?ws = []"
      using Cons.prems(2,3) by (auto simp: filter_empty_conv set_tuple_sorted_set)
    with * ** nw show ?thesis by simp
  qed
qed

lemma sink_waits_frame:
  assumes "sink_waits g s = Inr r"
  shows "filter (\<lambda>n. \<not> is_wait g n) r = filter (\<lambda>n. \<not> is_wait g n) s"
proof -
  from assms obtain res cw where l: "sink_loop g s ([], {}) = Inr (res, cw)"
    and r: "r = res @ tuple_sorted_set cw"
    by (auto simp: sink_waits_def split: sum.splits)
  from sink_loop_frame[OF l] have f: "filter (\<lambda>n. \<not> is_wait g n) res = filter (\<lambda>n. \<not> is_wait g n) s"
    and c: "finite cw" "\<forall>w\<in>cw. is_wait g w" by auto
  have "filter (\<lambda>n. \<not> is_wait g n) (tuple_sorted_set cw) = []"
    using c by (auto simp: filter_empty_conv set_tuple_sorted_set)
  with f r show ?thesis by simp
qed

lemma sunk_append:
  "sunk g xs \<Longrightarrow> sunk g ys \<Longrightarrow> xs = [] \<or> \<not> is_wait g (last xs) \<Longrightarrow> sunk g (xs @ ys)"
proof (induction xs)
  case Nil
  then show ?case by simp
next
  case (Cons x xs)
  show ?case
  proof (cases "xs = []")
    case True
    with Cons.prems show ?thesis by simp
  next
    case False
    with Cons.prems(3) have l: "\<not> is_wait g (last xs)" by simp
    from find_last_Some[of xs "\<lambda>n. \<not> is_wait g n", OF False l]
    obtain y where y: "find (\<lambda>n. \<not> is_wait g n) xs = Some y" by blast
    from Cons.prems(1) have "sunk g xs" by simp
    from Cons.IH[OF this Cons.prems(2)] l have "sunk g (xs @ ys)" by simp
    with Cons.prems(1) y find_append_Some[OF y, of ys] show ?thesis by simp
  qed
qed

lemma sunk_waits: "\<forall>w\<in>set ws. is_wait g w \<Longrightarrow> sunk g ws"
proof (induction ws)
  case Nil
  then show ?case by simp
next
  case (Cons w ws)
  then have "find (\<lambda>n. \<not> is_wait g n) ws = None" by (simp add: find_None_iff)
  with Cons show ?case by simp
qed

lemma sunk_block:
  "\<forall>w\<in>set ws. is_wait g w \<and> n \<in> set (users g w) \<Longrightarrow> sunk g (ws @ [n])"
proof (induction ws)
  case Nil
  then show ?case by simp
next
  case (Cons w ws)
  then have "find (\<lambda>n. \<not> is_wait g n) ws = None" by (simp add: find_None_iff)
  from find_append_None[OF this, of "[n]"] Cons show ?case by (auto split: if_splits)
qed

lemma sink_loop_sunk:
  assumes "sink_loop g xs (res, cw) = Inr (res', cw')" "finite cw" "\<forall>w\<in>cw. is_wait g w"
    "sunk g res" "res = [] \<or> \<not> is_wait g (last res)"
  shows "sunk g res' \<and> (res' = [] \<or> \<not> is_wait g (last res'))"
proof -
  let ?P = "\<lambda>ps res cw. finite cw \<and> (\<forall>w\<in>cw. is_wait g w) \<and> sunk g res \<and> (res = [] \<or> \<not> is_wait g (last res))"
  have "?P ([] @ xs) res' cw'"
  proof (rule sink_loop_invariant[where P = ?P, OF assms(1)])
    show "?P [] res cw" using assms by simp
  next
    fix ps res cw w assume "?P ps res cw" "is_wait g w"
    then show "?P (ps @ [w]) res (insert w cw)" by simp
  next
    fix ps res cw n
    assume p: "?P ps res cw" and no: "isinstance_snode g n Wait = Inr False"
    let ?ws = "filter (\<lambda>w. n \<in> set (users g w)) (tuple_sorted_set cw)"
    have "\<forall>w\<in>set ?ws. is_wait g w \<and> n \<in> set (users g w)"
      using p by (auto simp: set_tuple_sorted_set)
    then have blk: "sunk g (?ws @ [n])" by (rule sunk_block)
    from sunk_append[of g res "?ws @ [n]"] p blk have "sunk g (res @ ?ws @ [n])" by blast
    moreover have "\<not> is_wait g n" using no by (simp add: is_wait_def)
    ultimately show "?P (ps @ [n]) (res @ ?ws @ [n]) (cw - set ?ws)" using p by auto
  qed
  then show ?thesis by simp
qed

lemma sink_waits_sunk:
  assumes "sink_waits g s = Inr r"
  shows "sunk g r"
proof -
  from assms obtain res cw where l: "sink_loop g s ([], {}) = Inr (res, cw)"
    and r: "r = res @ tuple_sorted_set cw"
    by (auto simp: sink_waits_def split: sum.splits)
  from sink_loop_pending[OF l] have c: "finite cw" "\<forall>w\<in>cw. is_wait g w" by auto
  from sink_loop_sunk[OF l] have s: "sunk g res" "res = [] \<or> \<not> is_wait g (last res)" by auto
  have "sunk g (tuple_sorted_set cw)" using c by (intro sunk_waits) (simp add: set_tuple_sorted_set)
  with s r sunk_append[of g res "tuple_sorted_set cw"] show ?thesis by blast
qed

lemma sunk_nth:
  "sunk g r \<Longrightarrow> i < j \<Longrightarrow> j < length r \<Longrightarrow> is_wait g (r ! i) \<Longrightarrow> \<not> is_wait g (r ! j) \<Longrightarrow>
   \<forall>k. i < k \<and> k < j \<longrightarrow> is_wait g (r ! k) \<Longrightarrow> r ! j \<in> set (users g (r ! i))"
proof (induction r arbitrary: i j)
  case Nil
  then show ?case by simp
next
  case (Cons x xs)
  obtain j' where j: "j = Suc j'" using Cons.prems(2) by (cases j) auto
  show ?case
  proof (cases i)
    case 0
    have "find (\<lambda>n. \<not> is_wait g n) xs = Some (xs ! j')"
      using Cons.prems j 0 by (intro find_first_nth) auto
    with Cons.prems 0 j show ?thesis by simp
  next
    case (Suc i')
    have "xs ! j' \<in> set (users g (xs ! i'))"
      using Cons.prems j Suc by (intro Cons.IH) auto
    with j Suc show ?thesis by simp
  qed
qed

lemma sink_loop_append:
  "sink_loop g (xs @ ys) st = (case sink_loop g xs st of Inl e \<Rightarrow> Inl e | Inr st' \<Rightarrow> sink_loop g ys st')"
proof (induction xs arbitrary: st)
  case Nil
  then show ?case by simp
next
  case (Cons node rest)
  obtain res cw where st: "st = (res, cw)" by (cases st)
  show ?case
  proof (cases rule: isinstance_cases[of g node Wait])
    case err
    then show ?thesis unfolding st by simp
  next
    case yes
    then have w: "is_wait g node" by (simp add: is_wait_def)
    show ?thesis unfolding st append_Cons sink_loop_Cons_wait[OF w] by (rule Cons.IH)
  next
    case no
    show ?thesis unfolding st append_Cons sink_loop_Cons_other[OF no] by (rule Cons.IH)
  qed
qed

lemma sink_loop_waits:
  "\<forall>w\<in>set ws. is_wait g w \<Longrightarrow> sink_loop g ws (res, cw) = Inr (res, cw \<union> set ws)"
proof (induction ws arbitrary: cw)
  case Nil
  then show ?case by simp
next
  case (Cons w ws)
  then have w: "is_wait g w" by simp
  have "sink_loop g ws (res, insert w cw) = Inr (res, insert w cw \<union> set ws)"
    using Cons.prems by (intro Cons.IH) simp
  then show ?case unfolding sink_loop_Cons_wait[OF w] by simp
qed

text \<open>The list built by the loop of \<open>sink_waits\<close> is a fixed point of the loop.\<close>

lemma sink_loop_fixed:
  assumes "sink_loop g xs (res, cw) = Inr (res', cw')" "finite cw" "\<forall>w\<in>cw. is_wait g w"
    "sink_loop g res ([], {}) = Inr (res, {})"
  shows "sink_loop g res' ([], {}) = Inr (res', {})"
proof -
  let ?P = "\<lambda>ps res cw. finite cw \<and> (\<forall>w\<in>cw. is_wait g w) \<and> sink_loop g res ([], {}) = Inr (res, {})"
  have "?P ([] @ xs) res' cw'"
  proof (rule sink_loop_invariant[where P = ?P, OF assms(1)])
    show "?P [] res cw" using assms by simp
  next
    fix ps res cw w assume "?P ps res cw" "is_wait g w"
    then show "?P (ps @ [w]) res (insert w cw)" by simp
  next
    fix ps res cw n
    assume p: "?P ps res cw" and no: "isinstance_snode g n Wait = Inr False"
    let ?ws = "filter (\<lambda>w. n \<in> set (users g w)) (tuple_sorted_set cw)"
    have ws: "\<forall>w\<in>set ?ws. is_wait g w" using p by (auto simp: set_tuple_sorted_set)
    have idem: "tuple_sorted_set (set ?ws) = ?ws" using p by (intro tuple_sorted_set_filter_idem) simp
    have "sink_loop g (res @ ?ws @ [n]) ([], {}) = sink_loop g (?ws @ [n]) (res, {})"
      using p by (simp add: sink_loop_append[of g res])
    also have "\<dots> = sink_loop g [n] (res, set ?ws)"
      by (simp add: sink_loop_append[of g ?ws] sink_loop_waits[OF ws])
    also have "\<dots> = Inr (res @ ?ws @ [n], {})"
      unfolding sink_loop_Cons_other[OF no] idem by simp
    finally show "?P (ps @ [n]) (res @ ?ws @ [n]) (cw - set ?ws)" using p by simp
  qed
  then show ?thesis by simp
qed

lemma sink_waits_idem:
  assumes "sink_waits g s = Inr r"
  shows "sink_waits g r = Inr r"
proof -
  from assms obtain res cw where l: "sink_loop g s ([], {}) = Inr (res, cw)"
    and r: "r = res @ tuple_sorted_set cw"
    by (auto simp: sink_waits_def split: sum.splits)
  from sink_loop_pending[OF l] have c: "finite cw" "\<forall>w\<in>cw. is_wait g w" by auto
  from sink_loop_fixed[OF l] have f: "sink_loop g res ([], {}) = Inr (res, {})" by simp
  have ws: "\<forall>w\<in>set (tuple_sorted_set cw). is_wait g w" using c by (simp add: set_tuple_sorted_set)
  have "sink_loop g r ([], {}) = Inr (res, cw)"
    unfolding r using c by (simp add: sink_loop_append[of g res] f sink_loop_waits[OF ws] set_tuple_sorted_set)
  then show ?thesis by (simp add: sink_waits_def r)
qed

section \<open>The Wait Sinker keeps a topological order\<close>

lemma sink_loop_set:
  assumes "sink_loop g xs (res, cw) = Inr (res', cw')" "finite cw"
  shows "finite cw' \<and> set res' \<union> cw' = set res \<union> cw \<union> set xs"
proof -
  let ?P = "\<lambda>ps res' cw'. finite cw' \<and> set res' \<union> cw' = set res \<union> cw \<union> set ps"
  have "?P ([] @ xs) res' cw'"
    by (rule sink_loop_invariant[where P = ?P, OF assms(1)])
      (use assms(2) in \<open>auto simp: set_tuple_sorted_set\<close>)
  then show ?thesis by simp
qed

lemma sink_waits_set:
  assumes "sink_waits g s = Inr r"
  shows "set r = set s"
proof -
  from assms obtain res cw where l: "sink_loop g s ([], {}) = Inr (res, cw)"
    and r: "r = res @ tuple_sorted_set cw"
    by (auto simp: sink_waits_def split: sum.splits)
  from sink_loop_set[OF l] r show ?thesis by (auto simp: set_tuple_sorted_set)
qed

lemma sink_loop_distinct:
  assumes "sink_loop g xs (res, cw) = Inr (res', cw')" "finite cw" "distinct (res @ xs)"
    "set res \<inter> cw = {}" "(set res \<union> cw) \<inter> set xs = {}"
  shows "distinct res' \<and> set res' \<inter> cw' = {}"
proof -
  let ?P = "\<lambda>ps res' cw'. finite cw' \<and> set res' \<union> cw' = set res \<union> cw \<union> set ps \<and>
      (distinct (res @ ps) \<and> (set res \<union> cw) \<inter> set ps = {} \<longrightarrow> distinct res' \<and> set res' \<inter> cw' = {})"
  have "?P ([] @ xs) res' cw'"
  proof (rule sink_loop_invariant[where P = ?P, OF assms(1)])
    show "?P [] res cw" using assms by simp
  next
    fix ps res' cw' w assume "?P ps res' cw'" "is_wait g w"
    then show "?P (ps @ [w]) res' (insert w cw')" by auto
  next
    fix ps res' cw' n
    assume p: "?P ps res' cw'" and no: "isinstance_snode g n Wait = Inr False"
    let ?ws = "filter (\<lambda>w. n \<in> set (users g w)) (tuple_sorted_set cw')"
    have d: "distinct ?ws" by (simp add: tuple_sorted_set_def)
    have s: "set ?ws \<subseteq> cw'" using p by (auto simp: set_tuple_sorted_set)
    show "?P (ps @ [n]) (res' @ ?ws @ [n]) (cw' - set ?ws)"
      using p d s by (auto simp: set_tuple_sorted_set)
  qed
  with assms show ?thesis by simp
qed

lemma sink_waits_distinct:
  assumes "sink_waits g s = Inr r" "distinct s"
  shows "distinct r"
proof -
  from assms obtain res cw where l: "sink_loop g s ([], {}) = Inr (res, cw)"
    and r: "r = res @ tuple_sorted_set cw"
    by (auto simp: sink_waits_def split: sum.splits)
  from sink_loop_set[OF l] have f: "finite cw" by simp
  from sink_loop_distinct[OF l] assms(2) have "distinct res \<and> set res \<inter> cw = {}" by simp
  with r f show ?thesis by (auto simp: set_tuple_sorted_set tuple_sorted_set_def)
qed

text \<open>A wait stays before a later node that uses it.\<close>

lemma sink_waits_wait_before_user:
  assumes run: "sink_waits g s = Inr r" and n: "\<not> is_wait g n" "n \<in> set (users g w)"
    and pre: "precedes w n s"
  shows "precedes w n r"
proof -
  from run obtain res cw where l: "sink_loop g s ([], {}) = Inr (res, cw)"
    and r: "r = res @ tuple_sorted_set cw"
    by (auto simp: sink_waits_def split: sum.splits)
  let ?P = "\<lambda>ps res cw. finite cw \<and> set ps \<subseteq> set res \<union> cw \<and> (precedes w n ps \<longrightarrow> precedes w n res)"
  have "?P ([] @ s) res cw"
  proof (rule sink_loop_invariant[where P = ?P, OF l])
    show "?P [] [] {}" by simp
  next
    fix ps res cw m assume "?P ps res cw" "is_wait g m"
    with n(1) show "?P (ps @ [m]) res (insert m cw)" by (auto simp: precedes_append)
  next
    fix ps res cw m
    assume p: "?P ps res cw" and no: "isinstance_snode g m Wait = Inr False"
    let ?ws = "filter (\<lambda>w. m \<in> set (users g w)) (tuple_sorted_set cw)"
    have sub: "set (ps @ [m]) \<subseteq> set (res @ ?ws @ [m]) \<union> (cw - set ?ws)" using p by auto
    have "precedes w n (res @ ?ws @ [m])" if "precedes w n (ps @ [m])"
    proof -
      from that consider "precedes w n ps" | "w \<in> set ps" "m = n" by (auto simp: precedes_append)
      then show ?thesis
      proof cases
        case 1
        with p show ?thesis by (simp add: precedes_append)
      next
        case 2
        with p have "w \<in> set res \<or> w \<in> cw" by auto
        then show ?thesis
        proof
          assume "w \<in> set res"
          with 2 show ?thesis by (simp add: precedes_append)
        next
          assume "w \<in> cw"
          with p n(2) 2 have "w \<in> set ?ws" by (simp add: set_tuple_sorted_set)
          with 2 show ?thesis by (simp add: precedes_append)
        qed
      qed
    qed
    with p sub show "?P (ps @ [m]) (res @ ?ws @ [m]) (cw - set ?ws)" by blast
  qed
  with pre r show ?thesis by (simp add: precedes_append)
qed

text \<open>A node that is not a wait stays before a later wait.\<close>

lemma sink_waits_other_before_wait:
  assumes run: "sink_waits g s = Inr r" and n: "\<not> is_wait g n" "is_wait g w"
    and pre: "precedes n w s"
  shows "precedes n w r"
proof -
  from run obtain res cw where l: "sink_loop g s ([], {}) = Inr (res, cw)"
    and r: "r = res @ tuple_sorted_set cw"
    by (auto simp: sink_waits_def split: sum.splits)
  let ?P = "\<lambda>ps res cw. finite cw \<and> (\<forall>x\<in>cw. is_wait g x) \<and> set ps \<subseteq> set res \<union> cw \<and>
      (precedes n w ps \<longrightarrow> precedes n w res \<or> (n \<in> set res \<and> w \<in> cw))"
  have "?P ([] @ s) res cw"
  proof (rule sink_loop_invariant[where P = ?P, OF l])
    show "?P [] [] {}" by simp
  next
    fix ps res cw m assume "?P ps res cw" "is_wait g m"
    with n(1) show "?P (ps @ [m]) res (insert m cw)" by (auto simp: precedes_append)
  next
    fix ps res cw m
    assume p: "?P ps res cw" and no: "isinstance_snode g m Wait = Inr False"
    let ?ws = "filter (\<lambda>w. m \<in> set (users g w)) (tuple_sorted_set cw)"
    have mw: "m \<noteq> w" using no n(2) by (auto simp: is_wait_def)
    have sub: "set (ps @ [m]) \<subseteq> set (res @ ?ws @ [m]) \<union> (cw - set ?ws)" using p by auto
    have "precedes n w (res @ ?ws @ [m]) \<or> (n \<in> set (res @ ?ws @ [m]) \<and> w \<in> cw - set ?ws)"
      if "precedes n w (ps @ [m])"
    proof -
      from that mw have "precedes n w ps" by (auto simp: precedes_append)
      with p have "precedes n w res \<or> (n \<in> set res \<and> w \<in> cw)" by blast
      then show ?thesis by (auto simp: precedes_append)
    qed
    with p sub show "?P (ps @ [m]) (res @ ?ws @ [m]) (cw - set ?ws)" by blast
  qed
  with pre r show ?thesis by (auto simp: precedes_append set_tuple_sorted_set)
qed

lemma sink_waits_others_order:
  assumes "sink_waits g s = Inr r" "\<not> is_wait g a" "\<not> is_wait g b"
  shows "precedes a b r = precedes a b s"
  using precedes_filter[of a b "\<lambda>n. \<not> is_wait g n" r] precedes_filter[of a b "\<lambda>n. \<not> is_wait g n" s]
    sink_waits_frame[OF assms(1)] assms(2,3) by simp

lemma sink_waits_topological:
  assumes run: "sink_waits g s = Inr r" and topo: "topological g s"
    and cons: "\<forall>v\<in>set s. \<forall>u\<in>set (args g v). u \<in> set s \<longrightarrow> v \<in> set (users g u)"
    and ww: "\<forall>v\<in>set s. \<forall>u\<in>set (args g v). u \<in> set s \<longrightarrow> \<not> (is_wait g u \<and> is_wait g v)"
  shows "topological g r"
  unfolding topological_def
proof (intro ballI impI)
  fix v u assume v: "v \<in> set r" and u: "u \<in> set (args g v)" "u \<in> set r"
  note st = sink_waits_set[OF run]
  from v u st topo have pre: "precedes u v s" by (auto simp: topological_def)
  from v u st cons have us: "v \<in> set (users g u)" by auto
  from v u st ww have nw: "\<not> (is_wait g u \<and> is_wait g v)" by auto
  show "precedes u v r"
  proof (cases "is_wait g u")
    case True
    with nw have "\<not> is_wait g v" by simp
    from sink_waits_wait_before_user[OF run this us pre] show ?thesis .
  next
    case False
    show ?thesis
    proof (cases "is_wait g v")
      case True
      from sink_waits_other_before_wait[OF run False True pre] show ?thesis .
    next
      case nv: False
      from sink_waits_others_order[OF run False nv] pre show ?thesis by simp
    qed
  qed
qed

section \<open>The place of a wait in the output of the Wait Sinker\<close>

lemma sunk_suffix: "sunk g (xs @ ys) \<Longrightarrow> sunk g ys"
  by (induction xs) simp_all

lemma takeWhile_first_other:
  "(case find (\<lambda>n. \<not> W n) b of None \<Rightarrow> True | Some n \<Rightarrow> \<not> P n) \<Longrightarrow>
   \<forall>x\<in>set (takeWhile P b). W x"
  by (induction b) (auto split: if_splits)

lemma sink_waits_wait_placed:
  assumes run: "sink_waits g s = Inr r" and ds: "distinct s"
    and w: "is_wait g w" "w \<in> set s"
    and us: "\<forall>n\<in>set s. n \<in> set (users g w) \<longrightarrow> \<not> is_wait g n \<and> precedes w n s"
  shows "wait_before_earliest_user g r w"
proof -
  let ?P = "\<lambda>n. n \<notin> set (users g w)"
  have dr: "distinct r" using sink_waits_distinct[OF run] ds by simp
  have sr: "set r = set s" using sink_waits_set[OF run] by simp
  from w(2) sr have "w \<in> set r" by simp
  then obtain a b where r: "r = a @ w # b" by (auto dest: split_list)
  with dr have wa: "w \<notin> set a" by simp
  have Pw: "?P w" using us w by blast
  have Pa: "\<forall>y\<in>set a. ?P y"
  proof (intro ballI notI)
    fix y assume y: "y \<in> set a" and u: "y \<in> set (users g w)"
    from y r sr have ys: "y \<in> set s" by auto
    with us u have "\<not> is_wait g y" "precedes w y s" by blast+
    from sink_waits_wait_before_user[OF run this(1) u this(2)] have "precedes w y r" .
    moreover from y r have "precedes y w r" by (simp add: precedes_append)
    ultimately show False using precedes_asym[OF dr] by blast
  qed
  have pre: "takeWhile ?P r = a @ w # takeWhile ?P b"
    using Pa Pw unfolding r by (simp add: takeWhile_append2)
  have dw: "dropWhile (\<lambda>n. n \<noteq> w) (a @ w # takeWhile ?P b) = w # takeWhile ?P b"
  proof -
    have "dropWhile (\<lambda>n. n \<noteq> w) (a @ w # takeWhile ?P b) = dropWhile (\<lambda>n. n \<noteq> w) (w # takeWhile ?P b)"
      using wa by (intro dropWhile_append2) auto
    then show ?thesis by simp
  qed
  from sink_waits_sunk[OF run] r have "sunk g (w # b)" using sunk_suffix[of g a "w # b"] by simp
  with w(1) have "case find (\<lambda>n. \<not> is_wait g n) b of None \<Rightarrow> True | Some n \<Rightarrow> \<not> ?P n"
    by (simp split: option.splits)
  from takeWhile_first_other[OF this] have "\<forall>x\<in>set (takeWhile ?P b). is_wait g x" .
  with w(1) pre dw show ?thesis
    by (simp add: wait_before_earliest_user_def Let_def list_all_iff)
qed

section \<open>The Communication Raiser: frame, shape and fixed point\<close>

lemma release_comms_shape:
  "release_comms g node cs res = (cs', res') \<Longrightarrow>
     \<exists>popped. cs = popped @ cs' \<and> res' = res @ popped
        \<and> (\<forall>c\<in>set cs'. node \<notin> set (args g c))
        \<and> (popped \<noteq> [] \<longrightarrow> node \<in> set (args g (last popped)))"
proof (induction cs arbitrary: res)
  case Nil
  then show ?case by simp
next
  case (Cons comm cs)
  show ?case
  proof (cases "\<exists>c \<in> set (comm # cs). node \<in> set (args g c)")
    case True
    with Cons.prems have "release_comms g node cs (res @ [comm]) = (cs', res')" by simp
    from Cons.IH[OF this] obtain popped where p: "cs = popped @ cs'" "res' = (res @ [comm]) @ popped"
      "\<forall>c\<in>set cs'. node \<notin> set (args g c)" "popped \<noteq> [] \<longrightarrow> node \<in> set (args g (last popped))"
      by blast
    have "node \<in> set (args g (last (comm # popped)))"
    proof (cases "popped = []")
      case True
      with p(1,3) \<open>\<exists>c \<in> set (comm # cs). node \<in> set (args g c)\<close> show ?thesis by auto
    next
      case False
      with p(4) show ?thesis by simp
    qed
    with p show ?thesis by (intro exI[of _ "comm # popped"]) simp
  next
    case False
    with Cons.prems have "cs' = comm # cs" "res' = res" by auto
    with False show ?thesis by (intro exI[of _ "[]"]) simp
  qed
qed

lemma raise_loop_Cons_comm:
  "is_comm g node \<Longrightarrow> raise_loop g (node # rest) (res, cur) = raise_loop g rest (res, cur @ [node])"
  by (simp add: is_comm_def)

lemma raise_loop_Cons_other:
  "isinstance_snode g node CollectiveKernel = Inr False \<Longrightarrow>
   raise_loop g (node # rest) (res, cur) =
     (case release_comms g node cur res of (cur', res') \<Rightarrow> raise_loop g rest (res' @ [node], cur'))"
  by simp

lemma raise_loop_Cons_err:
  "isinstance_snode g node CollectiveKernel = Inl e \<Longrightarrow> raise_loop g (node # rest) (res, cur) = Inl e"
  by simp

text \<open>One step of the loop at a non-communication node, in terms of the popped prefix.\<close>

lemma raise_loop_other_step:
  assumes "isinstance_snode g node CollectiveKernel = Inr False"
  obtains popped cur' where "cur = popped @ cur'"
    "raise_loop g (node # rest) (res, cur) = raise_loop g rest (res @ popped @ [node], cur')"
    "\<forall>c\<in>set cur'. node \<notin> set (args g c)"
    "popped \<noteq> [] \<longrightarrow> node \<in> set (args g (last popped))"
proof -
  obtain cur' res' where r: "release_comms g node cur res = (cur', res')" by (cases "release_comms g node cur res")
  from release_comms_shape[OF r] obtain popped where p: "cur = popped @ cur'" "res' = res @ popped"
      "\<forall>c\<in>set cur'. node \<notin> set (args g c)" "popped \<noteq> [] \<longrightarrow> node \<in> set (args g (last popped))"
    by blast
  have "raise_loop g (node # rest) (res, cur) = raise_loop g rest (res @ popped @ [node], cur')"
    by (simp only: raise_loop_Cons_other[OF assms] r p(2) split append_assoc)
  with p that show thesis by blast
qed

lemma raise_loop_invariant:
  assumes run: "raise_loop g xs (res, cur) = Inr (res', cur')"
    and init: "P ps res cur"
    and comm: "\<And>ps res cur c. P ps res cur \<Longrightarrow> is_comm g c \<Longrightarrow> P (ps @ [c]) res (cur @ [c])"
    and other: "\<And>ps res popped cur n. P ps res (popped @ cur) \<Longrightarrow>
        isinstance_snode g n CollectiveKernel = Inr False \<Longrightarrow>
        \<forall>c\<in>set cur. n \<notin> set (args g c) \<Longrightarrow>
        popped \<noteq> [] \<longrightarrow> n \<in> set (args g (last popped)) \<Longrightarrow>
        P (ps @ [n]) (res @ popped @ [n]) cur"
  shows "P (ps @ xs) res' cur'"
  using run init
proof (induction xs arbitrary: ps res cur)
  case Nil
  then show ?case by simp
next
  case (Cons node rest)
  show ?case
  proof (cases rule: isinstance_cases[of g node CollectiveKernel])
    case err
    with Cons.prems show ?thesis by simp
  next
    case yes
    then have w: "is_comm g node" by (simp add: is_comm_def)
    from Cons.prems(1) have "raise_loop g rest (res, cur @ [node]) = Inr (res', cur')"
      by (simp only: raise_loop_Cons_comm[OF w])
    from Cons.IH[OF this comm[OF Cons.prems(2) w]] show ?thesis by simp
  next
    case no
    from raise_loop_other_step[OF no, of cur rest res] obtain popped cur1 where
      p: "cur = popped @ cur1"
      "raise_loop g (node # rest) (res, cur) = raise_loop g rest (res @ popped @ [node], cur1)"
      "\<forall>c\<in>set cur1. node \<notin> set (args g c)"
      "popped \<noteq> [] \<longrightarrow> node \<in> set (args g (last popped))"
      by blast
    with Cons.prems(1) have r: "raise_loop g rest (res @ popped @ [node], cur1) = Inr (res', cur')" by simp
    have "P (ps @ [node]) (res @ popped @ [node]) cur1"
      using Cons.prems(2) p(1) by (intro other[OF _ no p(3,4)]) simp
    from Cons.IH[OF r this] show ?thesis by simp
  qed
qed

lemma raise_loop_pending:
  assumes "raise_loop g xs (res, cur) = Inr (res', cur')" "\<forall>c\<in>set cur. is_comm g c"
  shows "\<forall>c\<in>set cur'. is_comm g c"
  using raise_loop_invariant[where P = "\<lambda>ps res cur. \<forall>c\<in>set cur. is_comm g c" and ps = "[]", OF assms(1)]
    assms(2) by auto

lemma raise_loop_frame:
  "raise_loop g xs (res, cur) = Inr (res', cur') \<Longrightarrow> \<forall>c\<in>set cur. is_comm g c \<Longrightarrow>
     filter (\<lambda>n. \<not> is_comm g n) res' = filter (\<lambda>n. \<not> is_comm g n) res @ filter (\<lambda>n. \<not> is_comm g n) xs
     \<and> filter (is_comm g) res' @ cur' = filter (is_comm g) res @ cur @ filter (is_comm g) xs
     \<and> (\<forall>c\<in>set cur'. is_comm g c)"
proof (induction xs arbitrary: res cur)
  case Nil
  then show ?case by simp
next
  case (Cons node rest)
  show ?case
  proof (cases rule: isinstance_cases[of g node CollectiveKernel])
    case err
    with Cons.prems show ?thesis by simp
  next
    case yes
    then have w: "is_comm g node" by (simp add: is_comm_def)
    from Cons.prems(1) have "raise_loop g rest (res, cur @ [node]) = Inr (res', cur')"
      by (simp only: raise_loop_Cons_comm[OF w])
    from Cons.IH[OF this] Cons.prems w show ?thesis by simp
  next
    case no
    then have nw: "\<not> is_comm g node" by (simp add: is_comm_def)
    from raise_loop_other_step[OF no, of cur rest res] obtain popped cur1 where
      p: "cur = popped @ cur1"
      "raise_loop g (node # rest) (res, cur) = raise_loop g rest (res @ popped @ [node], cur1)"
      by blast
    with Cons.prems(1) have "raise_loop g rest (res @ popped @ [node], cur1) = Inr (res', cur')" by simp
    from Cons.IH[OF this] Cons.prems(2) p(1)
    have *: "filter (\<lambda>n. \<not> is_comm g n) res' =
          filter (\<lambda>n. \<not> is_comm g n) (res @ popped @ [node]) @ filter (\<lambda>n. \<not> is_comm g n) rest"
       "filter (is_comm g) res' @ cur' = filter (is_comm g) (res @ popped @ [node]) @ cur1 @ filter (is_comm g) rest"
       "\<forall>c\<in>set cur'. is_comm g c" by auto
    have "filter (\<lambda>n. \<not> is_comm g n) popped = []" "filter (is_comm g) popped = popped"
      using Cons.prems(2) p(1) by (auto simp: filter_empty_conv filter_id_conv)
    with * nw p(1) show ?thesis by simp
  qed
qed

lemma raise_comms_frame:
  assumes "raise_comms g s = Inr r"
  shows "filter (\<lambda>n. \<not> is_comm g n) r = filter (\<lambda>n. \<not> is_comm g n) s"
    and "filter (is_comm g) r = filter (is_comm g) s"
proof -
  from assms obtain res cur where l: "raise_loop g (rev s) ([], []) = Inr (res, cur)"
    and len: "length cur \<le> 1"
    and r: "r = rev (res @ tuple_sorted cur)"
    by (auto simp: raise_comms_def split: sum.splits if_splits)
  from raise_loop_frame[OF l] have f: "filter (\<lambda>n. \<not> is_comm g n) res = filter (\<lambda>n. \<not> is_comm g n) (rev s)"
    "filter (is_comm g) res @ cur = filter (is_comm g) (rev s)"
    and c: "\<forall>w\<in>set cur. is_comm g w" by auto
  have "filter (\<lambda>n. \<not> is_comm g n) cur = []" "filter (is_comm g) cur = cur"
    using c by (auto simp: filter_empty_conv filter_id_conv)
  note ts = tuple_sorted_short[OF len]
  from f(1) r ts \<open>filter (\<lambda>n. \<not> is_comm g n) cur = []\<close>
  show "filter (\<lambda>n. \<not> is_comm g n) r = filter (\<lambda>n. \<not> is_comm g n) s"
    by (simp add: rev_filter[symmetric])
  have "filter (is_comm g) r = rev (filter (is_comm g) res @ cur)"
    using r ts \<open>filter (is_comm g) cur = cur\<close> by (simp add: rev_filter[symmetric])
  also have "\<dots> = filter (is_comm g) s"
    by (simp only: f(2) rev_filter rev_rev_ident)
  finally show "filter (is_comm g) r = filter (is_comm g) s" .
qed

lemma raised_append:
  "raised g xs \<Longrightarrow> raised g ys \<Longrightarrow> xs = [] \<or> \<not> is_comm g (last xs) \<Longrightarrow> raised g (xs @ ys)"
proof (induction g xs rule: raised.induct)
  case (1 g c n xs)
  then show ?case by simp
next
  case (2 g c)
  then show ?case by (cases ys) simp_all
next
  case (3 g)
  then show ?case by simp
qed

lemma raised_comms: "\<forall>c\<in>set cs. is_comm g c \<Longrightarrow> raised g cs"
  by (induction g cs rule: raised.induct) auto

lemma raised_block:
  "\<forall>c\<in>set cs. is_comm g c \<Longrightarrow> cs \<noteq> [] \<longrightarrow> n \<in> set (args g (last cs)) \<Longrightarrow> raised g (cs @ [n])"
  by (induction g cs rule: raised.induct) auto

lemma raise_loop_raised:
  assumes "raise_loop g xs (res, cur) = Inr (res', cur')" "\<forall>c\<in>set cur. is_comm g c"
    "raised g res" "res = [] \<or> \<not> is_comm g (last res)"
  shows "raised g res' \<and> (res' = [] \<or> \<not> is_comm g (last res'))"
proof -
  let ?P = "\<lambda>ps res cur. (\<forall>c\<in>set cur. is_comm g c) \<and> raised g res \<and> (res = [] \<or> \<not> is_comm g (last res))"
  have "?P ([] @ xs) res' cur'"
  proof (rule raise_loop_invariant[where P = ?P, OF assms(1)])
    show "?P [] res cur" using assms by simp
  next
    fix ps res cur c assume "?P ps res cur" "is_comm g c"
    then show "?P (ps @ [c]) res (cur @ [c])" by simp
  next
    fix ps res popped cur n
    assume p: "?P ps res (popped @ cur)" and no: "isinstance_snode g n CollectiveKernel = Inr False"
      and l: "popped \<noteq> [] \<longrightarrow> n \<in> set (args g (last popped))"
    have blk: "raised g (popped @ [n])" using p l by (intro raised_block) auto
    from raised_append[of g res "popped @ [n]"] p blk have "raised g (res @ popped @ [n])" by blast
    moreover have "\<not> is_comm g n" using no by (simp add: is_comm_def)
    ultimately show "?P (ps @ [n]) (res @ popped @ [n]) cur" using p by auto
  qed
  then show ?thesis by simp
qed

lemma raise_comms_raised:
  assumes "raise_comms g s = Inr r"
  shows "raised g (rev r)"
proof -
  from assms obtain res cur where l: "raise_loop g (rev s) ([], []) = Inr (res, cur)"
    and len: "length cur \<le> 1"
    and r: "r = rev (res @ tuple_sorted cur)"
    by (auto simp: raise_comms_def split: sum.splits if_splits)
  from raise_loop_pending[OF l] have c: "\<forall>c\<in>set cur. is_comm g c" by simp
  from raise_loop_raised[OF l] have s: "raised g res" "res = [] \<or> \<not> is_comm g (last res)" by auto
  have "raised g cur" using c by (rule raised_comms)
  with s raised_append[of g res cur] have "raised g (res @ cur)" by blast
  with r tuple_sorted_short[OF len] show ?thesis by simp
qed

lemma raised_nth:
  "raised g nr \<Longrightarrow> Suc k < length nr \<Longrightarrow> is_comm g (nr ! k) \<Longrightarrow> \<not> is_comm g (nr ! Suc k) \<Longrightarrow>
   nr ! Suc k \<in> set (args g (nr ! k))"
proof (induction g nr arbitrary: k rule: raised.induct)
  case (1 g c n xs)
  show ?case
  proof (cases k)
    case 0
    with 1 show ?thesis by simp
  next
    case (Suc k')
    with 1 show ?thesis by simp
  qed
qed simp_all

lemma raise_comms_adjacent:
  assumes "raise_comms g s = Inr r" "Suc i < length r" "is_comm g (r ! Suc i)" "\<not> is_comm g (r ! i)"
  shows "r ! i \<in> set (args g (r ! Suc i))"
proof -
  let ?nr = "rev r"
  let ?k = "length r - Suc (Suc i)"
  have k: "Suc ?k < length ?nr" using assms(2) by simp
  have a: "?nr ! ?k = r ! Suc i" using assms(2) by (simp add: rev_nth)
  have "length r - Suc (Suc ?k) = i" using assms(2) by simp
  then have b: "?nr ! Suc ?k = r ! i" using assms(2) k by (simp add: rev_nth)
  from raised_nth[OF raise_comms_raised[OF assms(1)] k] a b assms(3,4) show ?thesis by simp
qed

lemma raise_loop_append:
  "raise_loop g (xs @ ys) st = (case raise_loop g xs st of Inl e \<Rightarrow> Inl e | Inr st' \<Rightarrow> raise_loop g ys st')"
proof (induction xs arbitrary: st)
  case Nil
  then show ?case by simp
next
  case (Cons node rest)
  obtain res cur where st: "st = (res, cur)" by (cases st)
  show ?case
  proof (cases rule: isinstance_cases[of g node CollectiveKernel])
    case err
    then show ?thesis unfolding st by simp
  next
    case yes
    then have w: "is_comm g node" by (simp add: is_comm_def)
    show ?thesis unfolding st append_Cons raise_loop_Cons_comm[OF w] by (rule Cons.IH)
  next
    case no
    obtain cur' res' where r: "release_comms g node cur res = (cur', res')" by (cases "release_comms g node cur res")
    show ?thesis unfolding st append_Cons raise_loop_Cons_other[OF no] r prod.case by (rule Cons.IH)
  qed
qed

lemma raise_loop_comms:
  "\<forall>c\<in>set cs. is_comm g c \<Longrightarrow> raise_loop g cs (res, cur) = Inr (res, cur @ cs)"
proof (induction cs arbitrary: cur)
  case Nil
  then show ?case by simp
next
  case (Cons c cs)
  then have c: "is_comm g c" by simp
  have "raise_loop g cs (res, cur @ [c]) = Inr (res, (cur @ [c]) @ cs)"
    using Cons.prems by (intro Cons.IH) simp
  then show ?case unfolding raise_loop_Cons_comm[OF c] by simp
qed

lemma release_comms_all:
  "cs \<noteq> [] \<longrightarrow> n \<in> set (args g (last cs)) \<Longrightarrow> release_comms g n cs res = ([], res @ cs)"
proof (induction cs arbitrary: res)
  case Nil
  then show ?case by simp
next
  case (Cons c cs)
  have ex: "\<exists>x\<in>set (c # cs). n \<in> set (args g x)"
    using Cons.prems last_in_set[of "c # cs"] by blast
  have "release_comms g n cs (res @ [c]) = ([], (res @ [c]) @ cs)"
    using Cons.prems by (intro Cons.IH) (auto split: if_splits)
  with ex show ?case by simp
qed

lemma raise_loop_fixed:
  assumes "raise_loop g xs (res, cur) = Inr (res', cur')" "\<forall>c\<in>set cur. is_comm g c"
    "raise_loop g res ([], []) = Inr (res, [])"
  shows "raise_loop g res' ([], []) = Inr (res', [])"
proof -
  let ?P = "\<lambda>ps res cur. (\<forall>c\<in>set cur. is_comm g c) \<and> raise_loop g res ([], []) = Inr (res, [])"
  have "?P ([] @ xs) res' cur'"
  proof (rule raise_loop_invariant[where P = ?P, OF assms(1)])
    show "?P [] res cur" using assms by simp
  next
    fix ps res cur c assume "?P ps res cur" "is_comm g c"
    then show "?P (ps @ [c]) res (cur @ [c])" by simp
  next
    fix ps res popped cur n
    assume p: "?P ps res (popped @ cur)" and no: "isinstance_snode g n CollectiveKernel = Inr False"
      and l: "popped \<noteq> [] \<longrightarrow> n \<in> set (args g (last popped))"
    have cs: "\<forall>c\<in>set popped. is_comm g c" using p by simp
    have "raise_loop g (res @ popped @ [n]) ([], []) = raise_loop g (popped @ [n]) (res, [])"
      using p by (simp add: raise_loop_append[of g res])
    also have "\<dots> = raise_loop g [n] (res, popped)"
      by (simp add: raise_loop_append[of g popped] raise_loop_comms[OF cs])
    also have "\<dots> = Inr (res @ popped @ [n], [])"
      unfolding raise_loop_Cons_other[OF no] release_comms_all[OF l] by simp
    finally show "?P (ps @ [n]) (res @ popped @ [n]) cur" using p by simp
  qed
  then show ?thesis by simp
qed

lemma raise_comms_idem:
  assumes "raise_comms g s = Inr r"
  shows "raise_comms g r = Inr r"
proof -
  from assms obtain res cur where l: "raise_loop g (rev s) ([], []) = Inr (res, cur)"
    and len: "length cur \<le> 1"
    and r: "r = rev (res @ tuple_sorted cur)"
    by (auto simp: raise_comms_def split: sum.splits if_splits)
  note ts = tuple_sorted_short[OF len]
  from raise_loop_pending[OF l] have c: "\<forall>c\<in>set cur. is_comm g c" by simp
  from raise_loop_fixed[OF l] have f: "raise_loop g res ([], []) = Inr (res, [])" by simp
  have "raise_loop g (rev r) ([], []) = Inr (res, cur)"
    unfolding r ts by (simp add: raise_loop_append[of g res] f raise_loop_comms[OF c])
  then show ?thesis using len by (simp add: raise_comms_def r ts)
qed

section \<open>The Communication Raiser keeps a topological order\<close>

lemma raise_loop_set:
  assumes "raise_loop g xs (res, cur) = Inr (res', cur')"
  shows "set res' \<union> set cur' = set res \<union> set cur \<union> set xs
    \<and> (distinct (res @ cur @ xs) \<longrightarrow> distinct (res' @ cur'))"
proof -
  let ?P = "\<lambda>ps res' cur'. set res' \<union> set cur' = set res \<union> set cur \<union> set ps
      \<and> (distinct (res @ cur @ ps) \<longrightarrow> distinct (res' @ cur'))"
  have "?P ([] @ xs) res' cur'"
  proof (rule raise_loop_invariant[where P = ?P, OF assms(1)])
    show "?P [] res cur" by simp
  next
    fix ps res' cur' c assume "?P ps res' cur'" "is_comm g c"
    then show "?P (ps @ [c]) res' (cur' @ [c])" by auto
  next
    fix ps res' popped cur' n
    assume "?P ps res' (popped @ cur')"
    then show "?P (ps @ [n]) (res' @ popped @ [n]) cur'" by auto
  qed
  then show ?thesis by simp
qed

lemma raise_comms_set:
  assumes "raise_comms g s = Inr r"
  shows "set r = set s" and "distinct s \<Longrightarrow> distinct r"
proof -
  from assms obtain res cur where l: "raise_loop g (rev s) ([], []) = Inr (res, cur)"
    and len: "length cur \<le> 1"
    and r: "r = rev (res @ tuple_sorted cur)"
    by (auto simp: raise_comms_def split: sum.splits if_splits)
  note ts = tuple_sorted_short[OF len]
  from raise_loop_set[OF l] r ts show "set r = set s" by auto
  from raise_loop_set[OF l] r ts show "distinct s \<Longrightarrow> distinct r" by auto
qed

text \<open>A communication node stays after an arg that stood before it.\<close>

lemma raise_comms_arg_before_comm:
  assumes run: "raise_comms g s = Inr r" and p: "\<not> is_comm g p" "p \<in> set (args g c)"
    and pre: "precedes p c s"
  shows "precedes p c r"
proof -
  from run obtain res cur where l: "raise_loop g (rev s) ([], []) = Inr (res, cur)"
    and len: "length cur \<le> 1"
    and r: "r = rev (res @ tuple_sorted cur)"
    by (auto simp: raise_comms_def split: sum.splits if_splits)
  let ?P = "\<lambda>ps res cur. set ps \<subseteq> set res \<union> set cur \<and> (precedes c p ps \<longrightarrow> precedes c p res)"
  have "?P ([] @ rev s) res cur"
  proof (rule raise_loop_invariant[where P = ?P, OF l])
    show "?P [] [] []" by simp
  next
    fix ps res cur m assume "?P ps res cur" "is_comm g m"
    with p(1) show "?P (ps @ [m]) res (cur @ [m])" by (auto simp: precedes_append)
  next
    fix ps res popped cur m
    assume q: "?P ps res (popped @ cur)" and rest: "\<forall>c\<in>set cur. m \<notin> set (args g c)"
    have sub: "set (ps @ [m]) \<subseteq> set (res @ popped @ [m]) \<union> set cur" using q by auto
    have "precedes c p (res @ popped @ [m])" if "precedes c p (ps @ [m])"
    proof -
      from that consider "precedes c p ps" | "c \<in> set ps" "m = p" by (auto simp: precedes_append)
      then show ?thesis
      proof cases
        case 1
        with q show ?thesis by (simp add: precedes_append)
      next
        case 2
        with rest p(2) have "c \<notin> set cur" by auto
        with q 2 have "c \<in> set res \<or> c \<in> set popped" by auto
        with 2 show ?thesis by (auto simp: precedes_append)
      qed
    qed
    with sub show "?P (ps @ [m]) (res @ popped @ [m]) cur" by blast
  qed
  with pre have "precedes c p res" by (simp add: precedes_rev)
  then have "precedes c p (res @ tuple_sorted cur)" by (simp add: precedes_append)
  then show ?thesis unfolding r by (simp only: precedes_rev)
qed

text \<open>A communication node stays before a later node of another kind.\<close>

lemma raise_comms_comm_before_other:
  assumes run: "raise_comms g s = Inr r" and n: "\<not> is_comm g n" "is_comm g c"
    and pre: "precedes c n s"
  shows "precedes c n r"
proof -
  from run obtain res cur where l: "raise_loop g (rev s) ([], []) = Inr (res, cur)"
    and len: "length cur \<le> 1"
    and r: "r = rev (res @ tuple_sorted cur)"
    by (auto simp: raise_comms_def split: sum.splits if_splits)
  note ts = tuple_sorted_short[OF len]
  let ?P = "\<lambda>ps res cur. (\<forall>x\<in>set cur. is_comm g x) \<and> set ps \<subseteq> set res \<union> set cur \<and>
      (precedes n c ps \<longrightarrow> precedes n c res \<or> (n \<in> set res \<and> c \<in> set cur))"
  have "?P ([] @ rev s) res cur"
  proof (rule raise_loop_invariant[where P = ?P, OF l])
    show "?P [] [] []" by simp
  next
    fix ps res cur m assume "?P ps res cur" "is_comm g m"
    with n(1) show "?P (ps @ [m]) res (cur @ [m])" by (auto simp: precedes_append)
  next
    fix ps res popped cur m
    assume q: "?P ps res (popped @ cur)" and no: "isinstance_snode g m CollectiveKernel = Inr False"
    have mc: "m \<noteq> c" using no n(2) by (auto simp: is_comm_def)
    have sub: "set (ps @ [m]) \<subseteq> set (res @ popped @ [m]) \<union> set cur" using q by auto
    have "precedes n c (res @ popped @ [m]) \<or> (n \<in> set (res @ popped @ [m]) \<and> c \<in> set cur)"
      if "precedes n c (ps @ [m])"
    proof -
      from that mc have "precedes n c ps" by (auto simp: precedes_append)
      with q have "precedes n c res \<or> (n \<in> set res \<and> c \<in> set (popped @ cur))" by blast
      then show ?thesis by (auto simp: precedes_append)
    qed
    with q sub show "?P (ps @ [m]) (res @ popped @ [m]) cur" by auto
  qed
  with pre have "precedes n c res \<or> (n \<in> set res \<and> c \<in> set cur)" by (simp add: precedes_rev)
  then have "precedes n c (res @ tuple_sorted cur)" by (auto simp: precedes_append ts)
  then show ?thesis unfolding r by (simp only: precedes_rev)
qed

lemma raise_comms_others_order:
  assumes "raise_comms g s = Inr r" "\<not> is_comm g a" "\<not> is_comm g b"
  shows "precedes a b r = precedes a b s"
  using precedes_filter[of a b "\<lambda>n. \<not> is_comm g n" r] precedes_filter[of a b "\<lambda>n. \<not> is_comm g n" s]
    raise_comms_frame(1)[OF assms(1)] assms(2,3) by simp

lemma raise_comms_comms_order:
  assumes "raise_comms g s = Inr r" "is_comm g a" "is_comm g b"
  shows "precedes a b r = precedes a b s"
  using precedes_filter[of a b "is_comm g" r] precedes_filter[of a b "is_comm g" s]
    raise_comms_frame(2)[OF assms(1)] assms(2,3) by simp

lemma raise_comms_topological:
  assumes run: "raise_comms g s = Inr r" and topo: "topological g s"
  shows "topological g r"
  unfolding topological_def
proof (intro ballI impI)
  fix v u assume v: "v \<in> set r" and u: "u \<in> set (args g v)" "u \<in> set r"
  note st = raise_comms_set(1)[OF run]
  from v u st topo have pre: "precedes u v s" by (auto simp: topological_def)
  show "precedes u v r"
  proof (cases "is_comm g u")
    case True
    show ?thesis
    proof (cases "is_comm g v")
      case cv: True
      from raise_comms_comms_order[OF run True cv] pre show ?thesis by simp
    next
      case False
      from raise_comms_comm_before_other[OF run False True pre] show ?thesis .
    qed
  next
    case False
    show ?thesis
    proof (cases "is_comm g v")
      case True
      from raise_comms_arg_before_comm[OF run False u(1) pre] show ?thesis .
    next
      case nv: False
      from raise_comms_others_order[OF run False nv] pre show ?thesis by simp
    qed
  qed
qed

lemma comm_raiser_claim_nth:
  assumes i: "i < length r" "r ! i = c"
    and before: "\<forall>j<length r. r ! j \<in> set (args g c) \<longrightarrow> j < i"
    and direct: "i = 0 \<or> r ! (i - 1) \<in> set (args g c)"
  shows "comm_raiser_claim g r c"
proof (cases i)
  case 0
  have "\<forall>x\<in>set (rev r). x \<notin> set (args g c)"
  proof
    fix x assume "x \<in> set (rev r)"
    then obtain j where "j < length r" "r ! j = x" by (auto simp: in_set_conv_nth)
    with before 0 show "x \<notin> set (args g c)" by auto
  qed
  then have "dropWhile (\<lambda>n. n \<notin> set (args g c)) (rev r) = []" by simp
  moreover have "r \<noteq> []" "hd r = c" using i 0 by (auto simp: hd_conv_nth)
  ultimately show ?thesis by (simp add: comm_raiser_claim_def)
next
  case (Suc k)
  let ?P = "\<lambda>n. n \<notin> set (args g c)"
  have k: "k < length r" using i Suc by simp
  have split: "r = take k r @ r ! k # drop (Suc k) r" using k by (rule id_take_nth_drop)
  have tail: "\<forall>x\<in>set (rev (drop (Suc k) r)). ?P x"
  proof
    fix x assume "x \<in> set (rev (drop (Suc k) r))"
    then obtain m where "m < length r - Suc k" "x = drop (Suc k) r ! m"
      by (auto simp: in_set_conv_nth)
    then have "Suc k \<le> Suc k + m" "Suc k + m < length r" "x = r ! (Suc k + m)"
      by simp_all
    with before Suc show "?P x" by auto
  qed
  have arg: "\<not> ?P (r ! k)" using direct Suc by simp
  have "rev r = rev (drop (Suc k) r) @ r ! k # rev (take k r)"
    by (subst split) simp
  then have "dropWhile ?P (rev r) = dropWhile ?P (rev (drop (Suc k) r) @ r ! k # rev (take k r))"
    by simp
  also have "\<dots> = dropWhile ?P (r ! k # rev (take k r))"
    using tail by (intro dropWhile_append2) simp
  also have "\<dots> = r ! k # rev (take k r)"
    using arg by simp
  finally have "rev (dropWhile ?P (rev r)) = take k r @ [r ! k]" by simp
  also have "\<dots> = take (Suc k) r" using k by (simp add: take_Suc_conv_app_nth)
  finally have pre: "rev (dropWhile ?P (rev r)) = take (Suc k) r" .
  have "take (Suc k) r \<noteq> []" using k by (cases r) auto
  moreover have "length (take (Suc k) r) = i" using i Suc by simp
  ultimately show ?thesis using i by (simp add: comm_raiser_claim_def pre)
qed

lemma raise_comms_claim:
  assumes run: "raise_comms g s = Inr r" and ds: "distinct s" and topo: "topological g s"
    and chain: "\<forall>k. Suc k < length (filter (is_comm g) s) \<longrightarrow>
        filter (is_comm g) s ! k \<in> set (args g (filter (is_comm g) s ! Suc k))"
    and c: "c \<in> set r" "is_comm g c"
  shows "comm_raiser_claim g r c"
proof -
  from c(1) obtain i where i: "i < length r" "r ! i = c" by (auto simp: in_set_conv_nth)
  have dr: "distinct r" using raise_comms_set(2)[OF run ds] .
  have tr: "topological g r" using raise_comms_topological[OF run topo] .
  have before: "\<forall>j<length r. r ! j \<in> set (args g c) \<longrightarrow> j < i"
  proof (intro allI impI)
    fix j assume j: "j < length r" "r ! j \<in> set (args g c)"
    with tr c(1) have "precedes (r ! j) c r" by (auto simp: topological_def)
    with i have "precedes (r ! j) (r ! i) r" by simp
    from precedes_distinct_nth[OF dr i(1) j(1) this] show "j < i" .
  qed
  have direct: "i = 0 \<or> r ! (i - 1) \<in> set (args g c)"
  proof (cases i)
    case 0
    then show ?thesis by simp
  next
    case (Suc k)
    with i have k: "Suc k < length r" "is_comm g (r ! Suc k)" using c(2) by simp_all
    have "r ! k \<in> set (args g (r ! Suc k))"
    proof (cases "is_comm g (r ! k)")
      case False
      from raise_comms_adjacent[OF run k False] show ?thesis .
    next
      case True
      from filter_neighbours[OF k(1) True k(2)] obtain m where
        m: "Suc m < length (filter (is_comm g) r)" "filter (is_comm g) r ! m = r ! k"
          "filter (is_comm g) r ! Suc m = r ! Suc k" by blast
      with chain raise_comms_frame(2)[OF run] show ?thesis by auto
    qed
    with Suc i show ?thesis by simp
  qed
  from comm_raiser_claim_nth[OF i before direct] show ?thesis .
qed

section \<open>The Global Communication Orderer adds its edges\<close>

lemma add_mutation_dep_fields:
  "fusion_meta (add_mutation_dep g l e) = fusion_meta g"
  "set (users g u) \<subseteq> set (users (add_mutation_dep g l e) u)"
  "set (args g u) \<subseteq> set (args (add_mutation_dep g l e) u)"
  "l \<in> set (users (add_mutation_dep g l e) e)"
  "e \<in> set (args (add_mutation_dep g l e) l)"
  "distinct (users g u) \<Longrightarrow> distinct (users (add_mutation_dep g l e) u)"
  by (auto simp: add_mutation_dep_def)

lemma fold_add_mutation_dep:
  fixes a b :: "nat \<Rightarrow> 'n"
  defines "F \<equiv> \<lambda>is g. fold (\<lambda>i g. add_mutation_dep g (a i) (b i)) is g"
  shows "fusion_meta (F is g) = fusion_meta g"
    and "set (users g u) \<subseteq> set (users (F is g) u)"
    and "set (args g u) \<subseteq> set (args (F is g) u)"
    and "i \<in> set is \<Longrightarrow> a i \<in> set (users (F is g) (b i)) \<and> b i \<in> set (args (F is g) (a i))"
    and "distinct (users g u) \<Longrightarrow> distinct (users (F is g) u)"
proof -
  show m: "fusion_meta (F is g) = fusion_meta g" for "is" g
    unfolding F_def by (induction "is" arbitrary: g) (simp_all add: add_mutation_dep_fields)
  show us: "set (users g u) \<subseteq> set (users (F is g) u)" for "is" g u
    unfolding F_def
  proof (induction "is" arbitrary: g)
    case Nil
    then show ?case by simp
  next
    case (Cons j js)
    from Cons[of "add_mutation_dep g (a j) (b j)"] add_mutation_dep_fields(2)[of g u "a j" "b j"]
    show ?case by auto
  qed
  show ar: "set (args g u) \<subseteq> set (args (F is g) u)" for "is" g u
    unfolding F_def
  proof (induction "is" arbitrary: g)
    case Nil
    then show ?case by simp
  next
    case (Cons j js)
    from Cons[of "add_mutation_dep g (a j) (b j)"] add_mutation_dep_fields(3)[of g u "a j" "b j"]
    show ?case by auto
  qed
  show "i \<in> set is \<Longrightarrow> a i \<in> set (users (F is g) (b i)) \<and> b i \<in> set (args (F is g) (a i))"
  proof (induction "is" arbitrary: g)
    case Nil
    then show ?case by simp
  next
    case (Cons j js)
    have step: "F (j # js) g = F js (add_mutation_dep g (a j) (b j))" by (simp add: F_def)
    show ?case
    proof (cases "i = j")
      case True
      from us[of "add_mutation_dep g (a j) (b j)" "b j" js] ar[of "add_mutation_dep g (a j) (b j)" "a j" js]
        add_mutation_dep_fields(4)[where l = "a j" and e = "b j" and g = g]
        add_mutation_dep_fields(5)[where l = "a j" and e = "b j" and g = g] True
      show ?thesis unfolding step by auto
    next
      case False
      with Cons.prems have "i \<in> set js" by simp
      from Cons.IH[OF this] show ?thesis unfolding step .
    qed
  qed
  show "distinct (users g u) \<Longrightarrow> distinct (users (F is g) u)"
    unfolding F_def by (induction "is" arbitrary: g) (simp_all add: add_mutation_dep_fields)
qed

lemma decide_global_ordering_comms_meta:
  "fusion_meta (decide_global_ordering_comms g nodes) = fusion_meta g"
  "is_comm (decide_global_ordering_comms g nodes) = is_comm g"
  "is_wait (decide_global_ordering_comms g nodes) = is_wait g"
proof -
  show m: "fusion_meta (decide_global_ordering_comms g nodes) = fusion_meta g"
    unfolding decide_global_ordering_comms_def Let_def by (rule fold_add_mutation_dep(1))
  show "is_comm (decide_global_ordering_comms g nodes) = is_comm g"
    by (rule ext) (simp add: is_comm_def isinstance_snode_def m)
  show "is_wait (decide_global_ordering_comms g nodes) = is_wait g"
    by (rule ext) (simp add: is_wait_def isinstance_snode_def m)
qed

lemma decide_global_ordering_comms_chain:
  assumes "Suc k < length (filter (is_comm g) nodes)"
  shows "filter (is_comm g) nodes ! Suc k
           \<in> set (users (decide_global_ordering_comms g nodes) (filter (is_comm g) nodes ! k))"
    and "filter (is_comm g) nodes ! k
           \<in> set (args (decide_global_ordering_comms g nodes) (filter (is_comm g) nodes ! Suc k))"
proof -
  let ?cn = "filter (is_comm g) nodes"
  have "Suc k \<in> set [1 ..< length ?cn]" using assms by simp
  from fold_add_mutation_dep(4)[OF this, of "\<lambda>i. ?cn ! i" "\<lambda>i. ?cn ! (i - 1)" g]
  show "?cn ! Suc k \<in> set (users (decide_global_ordering_comms g nodes) (?cn ! k))"
    and "?cn ! k \<in> set (args (decide_global_ordering_comms g nodes) (?cn ! Suc k))"
    unfolding decide_global_ordering_comms_def Let_def by simp_all
qed

lemma decide_global_ordering_comms_distinct:
  "distinct (users g u) \<Longrightarrow> distinct (users (decide_global_ordering_comms g nodes) u)"
  unfolding decide_global_ordering_comms_def Let_def by (rule fold_add_mutation_dep(5))

section \<open>The state of the Overlap Scheduler keeps its invariant\<close>

lemma release_user_fields:
  "unused_nodes (release_user u st) = unused_nodes st"
  "result (release_user u st) = result st"
  "indeg (release_user u st) v = (if v = u then map_option (\<lambda>d. d - 1) (indeg st u) else indeg st v)"
  "free_nodes (release_user u st) = (if indeg st u = Some 1 then insert u (free_nodes st) else free_nodes st)"
  by (auto simp: release_user_def split: option.splits)

lemma fold_release_user_fields:
  "unused_nodes (fold release_user us st) = unused_nodes st"
  "result (fold release_user us st) = result st"
  by (induction us arbitrary: st) (simp_all add: release_user_fields)

lemma fold_release_user_indeg:
  "distinct us \<Longrightarrow>
   indeg (fold release_user us st) v = (if v \<in> set us then map_option (\<lambda>d. d - 1) (indeg st v) else indeg st v)"
  by (induction us arbitrary: st) (auto simp: release_user_fields)

lemma fold_release_user_free:
  "distinct us \<Longrightarrow>
   free_nodes (fold release_user us st) = free_nodes st \<union> {v \<in> set us. indeg st v = Some 1}"
  by (induction us arbitrary: st) (auto simp: release_user_fields)

lemma add_node_Inr:
  assumes "add_node g node st = Inr st'"
  shows "node \<in> unused_nodes st" "node \<in> free_nodes st"
    "st' = fold release_user (users g node)
             (st\<lparr>free_nodes := free_nodes st - {node},
                 unused_nodes := unused_nodes st - {node},
                 result := result st @ [node]\<rparr>)"
  using assms by (auto simp: add_node_def split: if_splits)

lemma add_node_fields:
  assumes "add_node g node st = Inr st'"
  shows "unused_nodes st' = unused_nodes st - {node}" "result st' = result st @ [node]"
  using add_node_Inr(3)[OF assms] by (simp_all add: fold_release_user_fields)

lemma add_node_inv:
  assumes inv: "sched_inv g N st" and du: "distinct (users g node)"
    and run: "add_node g node st = Inr st'"
  shows "sched_inv g N st'"
proof -
  note a = add_node_Inr[OF run]
  let ?st0 = "st\<lparr>free_nodes := free_nodes st - {node}, unused_nodes := unused_nodes st - {node},
                 result := result st @ [node]\<rparr>"
  let ?U = "unused_nodes st"
  let ?A = "\<lambda>U v. {u \<in> set N. u \<in> U \<and> v \<in> set (users g u)}"
  from inv have deg: "\<And>v. indeg st v = (if v \<in> set N then Some (int (card (?A ?U v))) else None)"
    and free: "\<And>v. v \<in> free_nodes st \<Longrightarrow> v \<in> ?U \<and> indeg st v = Some 0"
    and sub: "?U \<subseteq> set N" and res: "set (result st) = set N - ?U" and dist: "distinct (result st)"
    and closed: "\<And>v u. v \<in> set (result st) \<Longrightarrow> u \<in> set N \<Longrightarrow> v \<in> set (users g u) \<Longrightarrow> precedes u v (result st)"
    by (auto simp: sched_inv_def)
  have nN: "node \<in> set N" using a(1) sub by auto
  have fin: "\<And>U v. finite (?A U v)" by simp
  have node0: "?A ?U node = {}"
  proof -
    from free[OF a(2)] deg[of node] nN have "card (?A ?U node) = 0" by simp
    with fin[of ?U node] show ?thesis by (simp only: card_0_eq)
  qed
  text \<open>every node of \<open>N\<close> that has \<open>node\<close> among its users is already scheduled\<close>
  have preds: "u \<in> set (result st)" if "u \<in> set N" "node \<in> set (users g u)" for u
  proof -
    from node0 that have "u \<notin> ?U" by blast
    with that res show ?thesis by simp
  qed
  have U': "unused_nodes st' = ?U - {node}" and R': "result st' = result st @ [node]"
    using add_node_fields[OF run] by simp_all
  have D': "indeg st' v = (if v \<in> set (users g node) then map_option (\<lambda>d. d - 1) (indeg st v) else indeg st v)" for v
    unfolding a(3) by (simp add: fold_release_user_indeg[OF du])
  have F': "free_nodes st' = (free_nodes st - {node}) \<union> {v \<in> set (users g node). indeg st v = Some 1}"
    unfolding a(3) by (simp add: fold_release_user_free[OF du])
  have A': "?A (?U - {node}) v = ?A ?U v - {node}" for v by auto
  have cardA: "int (card (?A (?U - {node}) v)) = int (card (?A ?U v)) - (if v \<in> set (users g node) then 1 else 0)" for v
  proof (cases "v \<in> set (users g node)")
    case True
    then have "node \<in> ?A ?U v" using nN a(1) by simp
    then have "card (?A ?U v - {node}) = card (?A ?U v) - 1" "card (?A ?U v) \<ge> 1"
      using fin[of ?U v] by (simp_all add: card_gt_0_iff Suc_le_eq) blast
    with True show ?thesis unfolding A' by simp
  next
    case False
    then have "node \<notin> ?A ?U v" by simp
    with False show ?thesis unfolding A' by simp
  qed
  have i1: "indeg st' v = (if v \<in> set N then Some (int (card (?A (unused_nodes st') v))) else None)" for v
    unfolding U' D' deg cardA by simp
  have i2: "v \<in> unused_nodes st' \<and> indeg st' v = Some 0" if "v \<in> free_nodes st'" for v
  proof -
    from that F' consider "v \<in> free_nodes st" "v \<noteq> node" | "v \<in> set (users g node)" "indeg st v = Some 1"
      by auto
    then show ?thesis
    proof cases
      case 1
      from free[OF 1(1)] have v: "v \<in> ?U" "indeg st v = Some 0" by simp_all
      with deg[of v] sub have "card (?A ?U v) = 0" by (auto split: if_splits)
      with fin[of ?U v] have "?A ?U v = {}" by (simp only: card_0_eq)
      with nN a(1) have "v \<notin> set (users g node)" by blast
      with v 1 show ?thesis unfolding U' D' by simp
    next
      case 2
      from 2(2) deg[of v] have vN: "v \<in> set N" by (auto split: if_splits)
      have "v \<noteq> node" using 2(1) node0 nN a(1) by blast
      moreover have "v \<in> ?U"
      proof (rule ccontr)
        assume "v \<notin> ?U"
        with vN res have "v \<in> set (result st)" by simp
        from closed[OF this nN 2(1)] have "node \<in> set (result st)" by (simp add: precedes_in_set)
        with res a(1) show False by simp
      qed
      ultimately show ?thesis using 2 unfolding U' D' by simp
    qed
  qed
  have i3: "unused_nodes st' \<subseteq> set N" using sub U' by auto
  have i4: "set (result st') = set N - unused_nodes st'" using res nN a(1) unfolding U' R' by auto
  have i5: "distinct (result st')" using dist res a(1) unfolding R' by simp
  have i6: "precedes u v (result st')" if "v \<in> set (result st')" "u \<in> set N" "v \<in> set (users g u)" for u v
  proof (cases "v \<in> set (result st)")
    case True
    from closed[OF this that(2,3)] show ?thesis unfolding R' by (simp add: precedes_append)
  next
    case False
    with that(1) have "v = node" unfolding R' by simp
    with preds[OF that(2)] that(3) show ?thesis unfolding R' by (simp add: precedes_append)
  qed
  show ?thesis unfolding sched_inv_def using i1 i2 i3 i4 i5 i6 by blast
qed

lemma count_user_apply:
  "count_user u deg v = (if v = u then map_option (\<lambda>d. d + 1) (deg u) else deg v)"
  by (auto simp: count_user_def split: option.splits)

lemma fold_count_user:
  "fold count_user us deg v = map_option (\<lambda>d. d + int (count_list us v)) (deg v)"
proof (induction us arbitrary: deg)
  case Nil
  then show ?case by (simp add: option.map_ident)
next
  case (Cons u us)
  have "fold count_user (u # us) deg v = fold count_user us (count_user u deg) v" by simp
  also have "\<dots> = map_option (\<lambda>d. d + int (count_list us v)) (count_user u deg v)" by (rule Cons.IH)
  also have "\<dots> = map_option (\<lambda>d. d + int (count_list (u # us) v)) (deg v)"
    by (cases "deg v") (auto simp: count_user_apply)
  finally show ?case .
qed

lemma fold_fold_count_user:
  "fold (\<lambda>node deg. fold count_user (users g node) deg) ns deg v
     = map_option (\<lambda>d. d + (\<Sum>n\<leftarrow>ns. int (count_list (users g n) v))) (deg v)"
proof (induction ns arbitrary: deg)
  case Nil
  then show ?case by (simp add: option.map_ident)
next
  case (Cons n ns)
  let ?F = "\<lambda>node deg. fold count_user (users g node) deg"
  have "fold ?F (n # ns) deg v = fold ?F ns (?F n deg) v" by simp
  also have "\<dots> = map_option (\<lambda>d. d + (\<Sum>n\<leftarrow>ns. int (count_list (users g n) v))) (?F n deg v)"
    by (rule Cons.IH)
  also have "\<dots> = map_option (\<lambda>d. d + (\<Sum>n\<leftarrow>n # ns. int (count_list (users g n) v))) (deg v)"
    by (cases "deg v") (simp_all add: fold_count_user)
  finally show ?case .
qed

lemma init_indeg_eq:
  assumes "distinct N" "\<forall>u\<in>set N. distinct (users g u)"
  shows "init_indeg g N v =
    (if v \<in> set N then Some (int (card {u \<in> set N. v \<in> set (users g u)})) else None)"
proof -
  have "(\<Sum>n\<leftarrow>N. int (count_list (users g n) v)) = (\<Sum>n\<leftarrow>N. (if v \<in> set (users g n) then 1 else 0))"
    using assms(2) by (intro arg_cong[where f = sum_list] map_cong) (simp_all add: count_list_distinct)
  also have "\<dots> = int (length (filter (\<lambda>n. v \<in> set (users g n)) N))"
    by (rule sum_list_indicator)
  also have "length (filter (\<lambda>n. v \<in> set (users g n)) N) = card {u \<in> set N. v \<in> set (users g u)}"
    using distinct_card[of "filter (\<lambda>n. v \<in> set (users g n)) N"] assms(1) by simp
  finally show ?thesis by (simp add: init_indeg_def fold_fold_count_user)
qed

lemma init_sched_inv:
  assumes "distinct N" "\<forall>u\<in>set N. distinct (users g u)"
  shows "sched_inv g N (init_sched g N)"
proof -
  have "{u \<in> set N. u \<in> set N \<and> v \<in> set (users g u)} = {u \<in> set N. v \<in> set (users g u)}" for v
    by auto
  then show ?thesis
    unfolding sched_inv_def init_sched_def by (simp add: init_indeg_eq[OF assms])
qed

text \<open>One run of the inner loop of \<open>add_all_nodes\<close>.\<close>

lemma add_free_inv:
  assumes "add_free g xs (st, all) = Inr (st', all')" "sched_inv g N st"
    "\<forall>u\<in>set N. distinct (users g u)"
  shows "sched_inv g N st'"
  using assms(1,2)
proof (induction xs arbitrary: st all)
  case Nil
  then show ?case by simp
next
  case (Cons node rest)
  show ?case
  proof (cases "node \<in> free_nodes st")
    case True
    with Cons.prems(1) obtain st1 where a: "add_node g node st = Inr st1"
      and r: "add_free g rest (st1, all - {node}) = Inr (st', all')"
      by (auto split: sum.splits)
    from add_node_Inr(1)[OF a] Cons.prems(2) have "node \<in> set N" by (auto simp: sched_inv_def)
    with assms(3) have "distinct (users g node)" by simp
    from add_node_inv[OF Cons.prems(2) this a] have "sched_inv g N st1" .
    from Cons.IH[OF r this] show ?thesis .
  next
    case False
    with Cons.prems(1) have "add_free g rest (st, all) = Inr (st', all')" by simp
    from Cons.IH[OF this Cons.prems(2)] show ?thesis .
  qed
qed

lemma add_free_unused:
  assumes "add_free g xs (st, all) = Inr (st', all')" "distinct xs" "set xs \<subseteq> all"
    "all \<subseteq> unused_nodes st"
  shows "all' \<subseteq> unused_nodes st' \<and> unused_nodes st' - all' = unused_nodes st - all"
  using assms
proof (induction xs arbitrary: st all)
  case Nil
  then show ?case by auto
next
  case (Cons node rest)
  show ?case
  proof (cases "node \<in> free_nodes st")
    case True
    with Cons.prems(1) obtain st1 where a: "add_node g node st = Inr st1"
      and r: "add_free g rest (st1, all - {node}) = Inr (st', all')"
      by (auto split: sum.splits)
    note f = add_node_fields(1)[OF a]
    have "all' \<subseteq> unused_nodes st' \<and> unused_nodes st' - all' = unused_nodes st1 - (all - {node})"
      using Cons.prems(2,3,4) f by (intro Cons.IH[OF r]) auto
    moreover have "unused_nodes st1 - (all - {node}) = unused_nodes st - all"
      using Cons.prems(3) f by auto
    ultimately show ?thesis by simp
  next
    case False
    with Cons.prems(1) have "add_free g rest (st, all) = Inr (st', all')" by simp
    from Cons.IH[OF this] Cons.prems(2,3,4) show ?thesis by simp
  qed
qed

text \<open>The \<open>while\<close> loop of \<open>add_all_nodes\<close>, when it returns.\<close>

lemma add_all_loop_inv:
  assumes run: "add_all_loop g st all = Some y"
  shows "\<forall>N st'. sched_inv g N st \<longrightarrow> (\<forall>u\<in>set N. distinct (users g u)) \<longrightarrow> all \<subseteq> unused_nodes st \<longrightarrow>
    y = Inr st' \<longrightarrow> sched_inv g N st' \<and> unused_nodes st' = unused_nodes st - all"
proof (rule add_all_loop.raw_induct[where P = "\<lambda>g st all y. \<forall>N st'. sched_inv g N st \<longrightarrow>
    (\<forall>u\<in>set N. distinct (users g u)) \<longrightarrow> all \<subseteq> unused_nodes st \<longrightarrow>
    y = Inr st' \<longrightarrow> sched_inv g N st' \<and> unused_nodes st' = unused_nodes st - all", OF _ run])
  fix f and g :: "'a graph" and st all y
  assume IH: "\<And>g st all y. f g st all = Some y \<Longrightarrow> \<forall>N st'. sched_inv g N st \<longrightarrow>
      (\<forall>u\<in>set N. distinct (users g u)) \<longrightarrow> all \<subseteq> unused_nodes st \<longrightarrow>
      y = Inr st' \<longrightarrow> sched_inv g N st' \<and> unused_nodes st' = unused_nodes st - all"
    and body: "(if all = {} then Some (Inr st)
       else case add_free g (tuple_sorted_set all) (st, all) of
              Inl e \<Rightarrow> Some (Inl e)
            | Inr (st', all_nodes') \<Rightarrow> f g st' all_nodes') = Some y"
  show "\<forall>N st'. sched_inv g N st \<longrightarrow> (\<forall>u\<in>set N. distinct (users g u)) \<longrightarrow> all \<subseteq> unused_nodes st \<longrightarrow>
    y = Inr st' \<longrightarrow> sched_inv g N st' \<and> unused_nodes st' = unused_nodes st - all"
  proof (intro impI allI)
    fix N st'
    assume inv: "sched_inv g N st" and du: "\<forall>u\<in>set N. distinct (users g u)"
      and sub: "all \<subseteq> unused_nodes st" and y: "y = Inr st'"
    show "sched_inv g N st' \<and> unused_nodes st' = unused_nodes st - all"
    proof (cases "all = {}")
      case True
      with body y inv show ?thesis by simp
    next
      case False
      with body y obtain st1 all1 where
        f: "add_free g (tuple_sorted_set all) (st, all) = Inr (st1, all1)"
        and rec: "f g st1 all1 = Some (Inr st')"
        by (auto split: sum.splits)
      from add_free_inv[OF f inv du] have inv1: "sched_inv g N st1" .
      from add_free_unused[OF f tuple_sorted_set_props sub]
      have u1: "all1 \<subseteq> unused_nodes st1" "unused_nodes st1 - all1 = unused_nodes st - all" by simp_all
      from IH[OF rec] inv1 du u1(1)
      have "sched_inv g N st'" "unused_nodes st' = unused_nodes st1 - all1" by blast+
      with u1(2) show ?thesis by simp
    qed
  qed
qed

lemma add_all_nodes_inv:
  assumes "add_all_nodes g nodes st = Some (Inr st')" "sched_inv g N st"
    "\<forall>u\<in>set N. distinct (users g u)"
  shows "sched_inv g N st'" "unused_nodes st' = unused_nodes st - nodes"
proof -
  from assms(1) have sub: "nodes \<subseteq> unused_nodes st" and l: "add_all_loop g st nodes = Some (Inr st')"
    by (auto simp: add_all_nodes_def split: if_splits)
  from add_all_loop_inv[OF l] assms(2,3) sub
  show "sched_inv g N st'" "unused_nodes st' = unused_nodes st - nodes" by blast+
qed

text \<open>The \<open>while\<close> loop of \<open>add_all_nodes\<close> does not return when none of the nodes it is
  to schedule is free.\<close>

lemma add_free_none_free:
  "set xs \<inter> free_nodes st = {} \<Longrightarrow> add_free g xs (st, all) = Inr (st, all)"
  by (induction xs) auto

lemma add_all_loop_stuck:
  assumes "all \<noteq> {}" "set (tuple_sorted_set all) \<inter> free_nodes st = {}"
  shows "add_all_loop g st all = None"
proof (rule ccontr)
  assume "add_all_loop g st all \<noteq> None"
  then obtain y where run: "add_all_loop g st all = Some y" by blast
  have "\<not> (all \<noteq> {} \<and> set (tuple_sorted_set all) \<inter> free_nodes st = {})"
  proof (rule add_all_loop.raw_induct[where P = "\<lambda>g st all y.
      \<not> (all \<noteq> {} \<and> set (tuple_sorted_set all) \<inter> free_nodes st = {})", OF _ run])
    fix f and g :: "'a graph" and st all y
    assume IH: "\<And>g st all y. f g st all = Some y \<Longrightarrow>
        \<not> (all \<noteq> {} \<and> set (tuple_sorted_set all) \<inter> free_nodes st = {})"
      and body: "(if all = {} then Some (Inr st)
         else case add_free g (tuple_sorted_set all) (st, all) of
                Inl e \<Rightarrow> Some (Inl e)
              | Inr (st', all_nodes') \<Rightarrow> f g st' all_nodes') = Some y"
    show "\<not> (all \<noteq> {} \<and> set (tuple_sorted_set all) \<inter> free_nodes st = {})"
    proof
      assume stuck: "all \<noteq> {} \<and> set (tuple_sorted_set all) \<inter> free_nodes st = {}"
      with body have "f g st all = Some y" by (simp add: add_free_none_free)
      from IH[OF this] stuck show False by blast
    qed
  qed
  with assms show False by blast
qed

lemma and_then_Inr:
  assumes "and_then m f = Some (Inr y)"
  obtains x where "m = Some (Inr x)" "f x = Some (Inr y)"
  using assms by (auto simp: and_then_def split: option.splits sum.splits)

lemma priority2_enough:
  "comm_cost \<le> total_cost \<Longrightarrow>
   priority2 g comm_nodes comm_ancestors comm_descendants prev comm_cost (st, total_cost) = Inr (st, total_cost)"
  by (simp add: priority2_def)

lemma overlap_step_enough:
  assumes b: "sum_runtime g (tuple_sorted_set
            (unused_nodes st \<inter> (comm_ancestors (comm_nodes ! idx) - comm_descendants (comm_nodes ! (idx - 1)))))
          = Inr batch_cost"
    and c: "get_runtime_fx g (comm_nodes ! (idx - 1)) = Inr comm_cost"
    and a: "add_all_nodes g
            (unused_nodes st \<inter> (comm_ancestors (comm_nodes ! idx) - comm_descendants (comm_nodes ! (idx - 1)))) st
          = Some (Inr st1)"
    and le: "comm_cost \<le> rolled_over_compute + batch_cost"
  shows "overlap_step g comm_nodes comm_ancestors comm_descendants idx (st, rolled_over_compute)
         = and_then (add_all_nodes g
                       (insert (comm_nodes ! idx) (unused_nodes st1 \<inter> comm_ancestors (comm_nodes ! idx))) st1)
             (\<lambda>st3. Some (Inr (st3, 0)))"
  using assms
  by (simp add: overlap_step_def Let_def and_then_def priority2_def split: option.splits sum.splits)

lemma fill_overlap_inv:
  assumes "fill_overlap g comm_cost xs (st, t) = Inr (st', t')" "sched_inv g N st"
    "\<forall>u\<in>set N. distinct (users g u)"
  shows "sched_inv g N st'"
  using assms(1,2)
proof (induction xs arbitrary: st t)
  case Nil
  then show ?case by simp
next
  case (Cons node rest)
  show ?case
  proof (cases "comm_cost \<le> t")
    case True
    with Cons.prems show ?thesis by simp
  next
    case False
    show ?thesis
    proof (cases rule: isinstance_cases[of g node CollectiveKernel])
      case err
      with Cons.prems False show ?thesis by simp
    next
      case yes
      with Cons.prems False have "fill_overlap g comm_cost rest (st, t) = Inr (st', t')" by simp
      from Cons.IH[OF this Cons.prems(2)] show ?thesis .
    next
      case no
      show ?thesis
      proof (cases "get_runtime_fx g node")
        case (Inl e)
        with Cons.prems False no show ?thesis by simp
      next
        case (Inr c)
        show ?thesis
        proof (cases "comm_cost - t \<le> c / 2")
          case True
          with Cons.prems False no Inr have "fill_overlap g comm_cost rest (st, t) = Inr (st', t')" by simp
          from Cons.IH[OF this Cons.prems(2)] show ?thesis .
        next
          case nskip: False
          with Cons.prems(1) False no Inr obtain st1 where a: "add_node g node st = Inr st1"
            and r: "fill_overlap g comm_cost rest (st1, t + c) = Inr (st', t')"
            by (auto split: sum.splits)
          from add_node_Inr(1)[OF a] Cons.prems(2) have "node \<in> set N" by (auto simp: sched_inv_def)
          with assms(3) have "distinct (users g node)" by simp
          from add_node_inv[OF Cons.prems(2) this a] have "sched_inv g N st1" .
          from Cons.IH[OF r this] show ?thesis .
        qed
      qed
    qed
  qed
qed

lemma priority2_inv:
  assumes "priority2 g cn anc desc prev comm_cost (st, t) = Inr (st', t')" "sched_inv g N st"
    "\<forall>u\<in>set N. distinct (users g u)"
  shows "sched_inv g N st'"
proof (cases "comm_cost \<le> t")
  case True
  with assms(1,2) show ?thesis by (simp add: priority2_def)
next
  case False
  with assms(1) have "fill_overlap g comm_cost
      (sort_key (earliest_comm_descendant cn anc) (tuple_sorted_set (free_nodes st - desc prev)))
      (st, t) = Inr (st', t')" by (simp add: priority2_def)
  from fill_overlap_inv[OF this assms(2,3)] show ?thesis .
qed

lemma overlap_step_inv:
  assumes run: "overlap_step g cn anc desc idx (st, r) = Some (Inr (st', r'))"
    and inv: "sched_inv g N st" and du: "\<forall>u\<in>set N. distinct (users g u)"
  shows "sched_inv g N st'"
proof -
  let ?prev = "cn ! (idx - 1)" and ?next = "cn ! idx"
  let ?p1 = "unused_nodes st \<inter> (anc ?next - desc ?prev)"
  from run obtain batch where
    r1: "and_then (Some (get_runtime_fx g ?prev)) (\<lambda>comm_cost.
           and_then (add_all_nodes g ?p1 st) (\<lambda>st1.
           let group1_cost = r + batch in
           and_then (Some (priority2 g cn anc desc ?prev comm_cost (st1, group1_cost))) (\<lambda>(st2, total_cost).
           let rollable_compute = total_cost - group1_cost;
               rolled_over_compute' = (if desc ?prev \<inter> anc ?next \<noteq> {} then 0 else rollable_compute);
               priority3 = unused_nodes st2 \<inter> anc ?next
           in and_then (add_all_nodes g (insert ?next priority3) st2) (\<lambda>st3.
              Some (Inr (st3, rolled_over_compute')))))) = Some (Inr (st', r'))"
    unfolding overlap_step_def prod.case Let_def by (rule and_then_Inr)
  then obtain comm_cost where
    r2: "and_then (add_all_nodes g ?p1 st) (\<lambda>st1.
           let group1_cost = r + batch in
           and_then (Some (priority2 g cn anc desc ?prev comm_cost (st1, group1_cost))) (\<lambda>(st2, total_cost).
           let rollable_compute = total_cost - group1_cost;
               rolled_over_compute' = (if desc ?prev \<inter> anc ?next \<noteq> {} then 0 else rollable_compute);
               priority3 = unused_nodes st2 \<inter> anc ?next
           in and_then (add_all_nodes g (insert ?next priority3) st2) (\<lambda>st3.
              Some (Inr (st3, rolled_over_compute'))))) = Some (Inr (st', r'))"
    by (rule and_then_Inr)
  then obtain st1 where a1: "add_all_nodes g ?p1 st = Some (Inr st1)" and
    r3: "and_then (Some (priority2 g cn anc desc ?prev comm_cost (st1, r + batch))) (\<lambda>(st2, total_cost).
           let rollable_compute = total_cost - (r + batch);
               rolled_over_compute' = (if desc ?prev \<inter> anc ?next \<noteq> {} then 0 else rollable_compute);
               priority3 = unused_nodes st2 \<inter> anc ?next
           in and_then (add_all_nodes g (insert ?next priority3) st2) (\<lambda>st3.
              Some (Inr (st3, rolled_over_compute')))) = Some (Inr (st', r'))"
    unfolding Let_def by (rule and_then_Inr)
  from r3 obtain s2 where p2: "priority2 g cn anc desc ?prev comm_cost (st1, r + batch) = Inr s2" and
    r4: "(case s2 of (st2, total_cost) \<Rightarrow>
           and_then (add_all_nodes g (insert ?next (unused_nodes st2 \<inter> anc ?next)) st2) (\<lambda>st3.
              Some (Inr (st3, if desc ?prev \<inter> anc ?next \<noteq> {} then 0 else total_cost - (r + batch)))))
         = Some (Inr (st', r'))"
    unfolding Let_def by (rule and_then_Inr) simp
  obtain st2 total where s2: "s2 = (st2, total)" by (cases s2)
  from r4[unfolded s2 prod.case]
  obtain st3 where a3: "add_all_nodes g (insert ?next (unused_nodes st2 \<inter> anc ?next)) st2 = Some (Inr st3)"
    and fin: "Some (Inr (st3, if desc ?prev \<inter> anc ?next \<noteq> {} then 0 else total - (r + batch))) = Some (Inr (st', r'))"
    by (rule and_then_Inr) blast
  from add_all_nodes_inv(1)[OF a1 inv du] have i1: "sched_inv g N st1" .
  from priority2_inv[OF p2[unfolded s2] i1 du] have i2: "sched_inv g N st2" .
  from add_all_nodes_inv(1)[OF a3 i2 du] have "sched_inv g N st3" .
  with fin show ?thesis by simp
qed

lemma overlap_loop_inv:
  assumes "overlap_loop g cn anc desc idxs (st, r) = Some (Inr (st', r'))"
    "sched_inv g N st" "\<forall>u\<in>set N. distinct (users g u)"
  shows "sched_inv g N st'"
  using assms(1,2)
proof (induction idxs arbitrary: st r)
  case Nil
  then show ?case by simp
next
  case (Cons idx idxs)
  from Cons.prems(1) obtain s1 where s: "overlap_step g cn anc desc idx (st, r) = Some (Inr s1)"
    and l: "overlap_loop g cn anc desc idxs s1 = Some (Inr (st', r'))"
    unfolding overlap_loop.simps by (rule and_then_Inr)
  obtain st1 r1 where s1: "s1 = (st1, r1)" by (cases s1)
  from overlap_step_inv[OF s[unfolded s1] Cons.prems(2) assms(3)] have "sched_inv g N st1" .
  from Cons.IH[OF l[unfolded s1] this] show ?case .
qed

section \<open>The schedules of the Overlap Scheduler and of the Baseline Scheduler\<close>

lemma smart_reordering_no_comm_eq:
  "\<forall>n\<in>set nodes. \<not> is_comm g n \<Longrightarrow>
   smart_reordering g nodes = Some (Inr (filter (\<lambda>node. fusion_meta g node \<noteq> None) nodes))"
  by (simp add: smart_reordering_def Let_def filter_empty_conv)

text \<open>What a run of \<open>smart_reordering\<close> that returns a sequence went through, when the
  list has a communication node: a state with every node scheduled, whose \<open>result\<close>
  the two cleanup passes turned into the output.\<close>

lemma smart_reordering_run:
  assumes run: "smart_reordering g nodes0 = Some (Inr out)"
    and N: "N = filter (\<lambda>node. fusion_meta g node \<noteq> None) nodes0"
    and comm: "filter (is_comm g) N \<noteq> []"
    and dN: "distinct N" and du: "\<forall>u\<in>set N. distinct (users g u)"
  obtains st r1 where "sched_inv g N st" "unused_nodes st = {}"
    "sink_waits g (result st) = Inr r1" "raise_comms g r1 = Inr out"
proof -
  let ?cn = "filter (is_comm g) N"
  from run comm obtain anc desc where
    r0: "and_then (add_all_nodes g (insert (?cn ! 0) (the (anc (?cn ! 0)))) (init_sched g N)) (\<lambda>st.
           and_then (overlap_loop g ?cn (\<lambda>c. the (anc c)) (\<lambda>c. the (desc c))
                       [1 ..< length (remdups ?cn)] (st, 0)) (\<lambda>(st, rolled_over_compute).
           and_then (add_all_nodes g (unused_nodes st) st) (\<lambda>st.
           and_then (Some (sink_waits g (result st))) (\<lambda>result.
           Some (raise_comms g result))))) = Some (Inr out)"
    unfolding smart_reordering_def N[symmetric] Let_def
    by (auto split: option.splits)
  then obtain st1 where a1: "add_all_nodes g (insert (?cn ! 0) (the (anc (?cn ! 0)))) (init_sched g N) = Some (Inr st1)"
    and r1: "and_then (overlap_loop g ?cn (\<lambda>c. the (anc c)) (\<lambda>c. the (desc c))
                       [1 ..< length (remdups ?cn)] (st1, 0)) (\<lambda>(st, rolled_over_compute).
           and_then (add_all_nodes g (unused_nodes st) st) (\<lambda>st.
           and_then (Some (sink_waits g (result st))) (\<lambda>result.
           Some (raise_comms g result)))) = Some (Inr out)"
    by (rule and_then_Inr)
  from r1 obtain s2 where l: "overlap_loop g ?cn (\<lambda>c. the (anc c)) (\<lambda>c. the (desc c))
                       [1 ..< length (remdups ?cn)] (st1, 0) = Some (Inr s2)"
    and r2: "(case s2 of (st, rolled_over_compute) \<Rightarrow>
           and_then (add_all_nodes g (unused_nodes st) st) (\<lambda>st.
           and_then (Some (sink_waits g (result st))) (\<lambda>result.
           Some (raise_comms g result)))) = Some (Inr out)"
    by (rule and_then_Inr)
  obtain st2 ro where s2: "s2 = (st2, ro)" by (cases s2)
  from r2[unfolded s2 prod.case]
  obtain st3 where a3: "add_all_nodes g (unused_nodes st2) st2 = Some (Inr st3)"
    and r3: "and_then (Some (sink_waits g (result st3))) (\<lambda>result. Some (raise_comms g result)) = Some (Inr out)"
    by (rule and_then_Inr)
  from r3 obtain res1 where sw: "Some (sink_waits g (result st3)) = Some (Inr res1)"
    and rc: "Some (raise_comms g res1) = Some (Inr out)"
    by (rule and_then_Inr)
  from init_sched_inv[OF dN du] have i0: "sched_inv g N (init_sched g N)" .
  from add_all_nodes_inv(1)[OF a1 i0 du] have i1: "sched_inv g N st1" .
  from overlap_loop_inv[OF l[unfolded s2] i1 du] have i2: "sched_inv g N st2" .
  from add_all_nodes_inv[OF a3 i2 du] have i3: "sched_inv g N st3" "unused_nodes st3 = {}" by simp_all
  from that[OF i3] sw rc show thesis by simp
qed

lemma sched_inv_result:
  assumes "sched_inv g N st" "unused_nodes st = {}"
  shows "set (result st) = set N" "distinct (result st)"
    "\<And>u v. u \<in> set N \<Longrightarrow> v \<in> set N \<Longrightarrow> v \<in> set (users g u) \<Longrightarrow> precedes u v (result st)"
  using assms by (auto simp: sched_inv_def)

text \<open>The communication nodes keep their order in the output of the Overlap
  Scheduler, when consecutive communication nodes are linked by an edge.\<close>

lemma smart_reordering_comm_order:
  assumes run: "smart_reordering g nodes = Some (Inr out)"
    and dn: "distinct nodes" and du: "\<forall>u\<in>set nodes. distinct (users g u)"
    and chain: "\<forall>k. Suc k < length (filter (is_comm g) nodes) \<longrightarrow>
        filter (is_comm g) nodes ! Suc k \<in> set (users g (filter (is_comm g) nodes ! k))"
    and ab: "is_comm g a" "is_comm g b" "precedes a b nodes"
  shows "precedes a b out"
proof -
  let ?N = "filter (\<lambda>node. fusion_meta g node \<noteq> None) nodes"
  let ?cn = "filter (is_comm g) nodes"
  have cn: "filter (is_comm g) ?N = ?cn" by (rule filter_comm_meta)
  from ab have pcn: "precedes a b ?cn" by (simp add: precedes_filter)
  then have ne: "filter (is_comm g) ?N \<noteq> []" unfolding cn by auto
  have dN: "distinct ?N" using dn by simp
  have duN: "\<forall>u\<in>set ?N. distinct (users g u)" using du by simp
  from smart_reordering_run[OF run refl ne dN duN] obtain st r1 where
    inv: "sched_inv g ?N st" and un: "unused_nodes st = {}"
    and sw: "sink_waits g (result st) = Inr r1" and rc: "raise_comms g r1 = Inr out"
    by blast
  note res = sched_inv_result[OF inv un]
  have sub: "set ?cn \<subseteq> set ?N" using cn by (metis filter_is_subset)
  have link: "\<forall>k. Suc k < length ?cn \<longrightarrow> precedes (?cn ! k) (?cn ! Suc k) (result st)"
  proof (intro allI impI)
    fix k assume k: "Suc k < length ?cn"
    then have "?cn ! k \<in> set ?cn" "?cn ! Suc k \<in> set ?cn" by (simp_all only: nth_mem Suc_lessD)
    then have "?cn ! k \<in> set ?N" "?cn ! Suc k \<in> set ?N" using sub by blast+
    with chain k show "precedes (?cn ! k) (?cn ! Suc k) (result st)" by (intro res(3)) simp_all
  qed
  from pcn obtain i j where ij: "i < j" "j < length ?cn" "?cn ! i = a" "?cn ! j = b"
    unfolding precedes_nth by blast
  from chain_precedes[OF res(2) link ij(1,2)] ij(3,4) have "precedes a b (result st)" by simp
  with sink_waits_others_order[OF sw is_comm_not_wait[OF ab(1)] is_comm_not_wait[OF ab(2)]]
  have "precedes a b r1" by simp
  with raise_comms_comms_order[OF rc ab(1,2)] show ?thesis by simp
qed

lemma smart_reordering_topological:
  assumes run: "smart_reordering g nodes = Some (Inr out)"
    and dn: "distinct nodes" and du: "\<forall>u\<in>set nodes. distinct (users g u)"
    and cons: "\<forall>v\<in>set nodes. \<forall>u\<in>set (args g v). u \<in> set nodes \<longrightarrow> v \<in> set (users g u)"
    and topo: "topological g nodes"
    and ww: "\<forall>v\<in>set nodes. \<forall>u\<in>set (args g v). u \<in> set nodes \<longrightarrow> \<not> (is_wait g u \<and> is_wait g v)"
  shows "topological g out \<and> set out = {n \<in> set nodes. fusion_meta g n \<noteq> None} \<and> distinct out"
proof -
  let ?N = "filter (\<lambda>node. fusion_meta g node \<noteq> None) nodes"
  have dN: "distinct ?N" using dn by simp
  have duN: "\<forall>u\<in>set ?N. distinct (users g u)" using du by simp
  show ?thesis
  proof (cases "filter (is_comm g) ?N = []")
    case True
    with run have "out = ?N" by (simp add: smart_reordering_def Let_def)
    with topological_filter[OF topo] dN show ?thesis by simp
  next
    case False
    from smart_reordering_run[OF run refl False dN duN] obtain st r1 where
      inv: "sched_inv g ?N st" and un: "unused_nodes st = {}"
      and sw: "sink_waits g (result st) = Inr r1" and rc: "raise_comms g r1 = Inr out"
      by blast
    note res = sched_inv_result[OF inv un]
    have t0: "topological g (result st)"
      unfolding topological_def
    proof (intro ballI impI)
      fix v u assume "v \<in> set (result st)" "u \<in> set (args g v)" "u \<in> set (result st)"
      with res(1) have v: "v \<in> set ?N" and u: "u \<in> set ?N" and a: "u \<in> set (args g v)" by simp_all
      with cons have "v \<in> set (users g u)" by simp
      from res(3)[OF u v this] show "precedes u v (result st)" .
    qed
    have c1: "\<forall>v\<in>set (result st). \<forall>u\<in>set (args g v). u \<in> set (result st) \<longrightarrow> v \<in> set (users g u)"
      using cons res(1) by simp
    have w1: "\<forall>v\<in>set (result st). \<forall>u\<in>set (args g v). u \<in> set (result st) \<longrightarrow> \<not> (is_wait g u \<and> is_wait g v)"
      using ww res(1) by simp
    from sink_waits_topological[OF sw t0 c1 w1] have t1: "topological g r1" .
    from raise_comms_topological[OF rc t1] have t2: "topological g out" .
    have "set out = set ?N" using raise_comms_set(1)[OF rc] sink_waits_set[OF sw] res(1) by simp
    moreover have "distinct out"
      using raise_comms_set(2)[OF rc] sink_waits_distinct[OF sw] res(2) by simp
    ultimately show ?thesis using t2 by simp
  qed
qed

text \<open>When the Overlap Scheduler returns a schedule for a list with a communication
  node, the graph on the scheduled nodes has no cycle.\<close>

lemma smart_reordering_acyclic:
  assumes run: "smart_reordering g nodes = Some (Inr out)"
    and comm: "filter (is_comm g) nodes \<noteq> []"
    and dn: "distinct nodes" and du: "\<forall>u\<in>set nodes. distinct (users g u)"
  shows "acyclic (users_edges g (filter (\<lambda>node. fusion_meta g node \<noteq> None) nodes))"
proof -
  let ?N = "filter (\<lambda>node. fusion_meta g node \<noteq> None) nodes"
  have dN: "distinct ?N" using dn by simp
  have duN: "\<forall>u\<in>set ?N. distinct (users g u)" using du by simp
  have ne: "filter (is_comm g) ?N \<noteq> []" unfolding filter_comm_meta by (rule comm)
  from smart_reordering_run[OF run refl ne dN duN] obtain st where
    inv: "sched_inv g ?N st" and un: "unused_nodes st = {}"
    by blast
  note res = sched_inv_result[OF inv un]
  have "precedes x y (result st)" if "(x, y) \<in> (users_edges g ?N)\<^sup>+" for x y
    using that
  proof (induction rule: trancl_induct)
    case (base y)
    then show ?case by (intro res(3)) (simp_all add: users_edges_def)
  next
    case (step y z)
    from step(2) have "precedes y z (result st)" by (intro res(3)) (simp_all add: users_edges_def)
    from precedes_trans[OF res(2) step(3) this] show ?case .
  qed
  with precedes_irrefl[OF res(2)] show ?thesis unfolding acyclic_def by blast
qed

lemma dumb_reordering_run:
  assumes "dumb_reordering g nodes = Inr souts"
  obtains r1 outs where "sink_waits g (filter (\<lambda>node. fusion_meta g node \<noteq> None) nodes) = Inr r1"
    "raise_comms g r1 = Inr outs" "souts = map (\<lambda>node. the (fusion_meta g node)) outs"
  using assms by (auto simp: dumb_reordering_def Let_def split: sum.splits)

lemma inj_on_snode:
  assumes "inj_on (fusion_meta g) {n \<in> set nodes. fusion_meta g n \<noteq> None}"
  shows "inj_on (\<lambda>node. the (fusion_meta g node)) {n \<in> set nodes. fusion_meta g n \<noteq> None}"
proof (rule inj_onI)
  fix x y
  assume x: "x \<in> {n \<in> set nodes. fusion_meta g n \<noteq> None}"
    and y: "y \<in> {n \<in> set nodes. fusion_meta g n \<noteq> None}"
    and e: "the (fusion_meta g x) = the (fusion_meta g y)"
  from x y e have "fusion_meta g x = fusion_meta g y" by auto
  from inj_onD[OF assms this x y] show "x = y" .
qed

lemma smart_reordering_distinct:
  assumes run: "smart_reordering g nodes = Some (Inr out)"
    and dn: "distinct nodes" and du: "\<forall>u\<in>set nodes. distinct (users g u)"
  shows "distinct out"
proof -
  let ?N = "filter (\<lambda>node. fusion_meta g node \<noteq> None) nodes"
  have dN: "distinct ?N" using dn by simp
  have duN: "\<forall>u\<in>set ?N. distinct (users g u)" using du by simp
  show ?thesis
  proof (cases "filter (is_comm g) ?N = []")
    case True
    with run have "out = ?N" by (simp add: smart_reordering_def Let_def)
    with dN show ?thesis by simp
  next
    case False
    from smart_reordering_run[OF run refl False dN duN] obtain st r1 where
      inv: "sched_inv g ?N st" and un: "unused_nodes st = {}"
      and sw: "sink_waits g (result st) = Inr r1" and rc: "raise_comms g r1 = Inr out"
      by blast
    note res = sched_inv_result[OF inv un]
    show "distinct out"
      using raise_comms_set(2)[OF rc] sink_waits_distinct[OF sw] res(2) by simp
  qed
qed

text \<open>The scheduler nodes that the Baseline Scheduler returns are those of the fx nodes
  that come out of the two cleanup passes, one scheduler node for every node that
  carries \<open>fusion_meta\<close>.\<close>

lemma dumb_reordering_snodes:
  assumes run: "dumb_reordering g nodes = Inr souts" and dn: "distinct nodes"
    and inj: "inj_on (fusion_meta g) {n \<in> set nodes. fusion_meta g n \<noteq> None}"
  obtains r1 outs where
    "sink_waits g (filter (\<lambda>node. fusion_meta g node \<noteq> None) nodes) = Inr r1"
    "raise_comms g r1 = Inr outs" "souts = map (\<lambda>node. the (fusion_meta g node)) outs"
    "set outs = {n \<in> set nodes. fusion_meta g n \<noteq> None}" "distinct outs" "distinct souts"
proof -
  let ?N = "filter (\<lambda>node. fusion_meta g node \<noteq> None) nodes"
  from dumb_reordering_run[OF run] obtain r1 outs where
    sw: "sink_waits g ?N = Inr r1"
    and rc: "raise_comms g r1 = Inr outs" and so: "souts = map (\<lambda>node. the (fusion_meta g node)) outs"
    by blast
  have s: "set outs = {n \<in> set nodes. fusion_meta g n \<noteq> None}"
    using raise_comms_set(1)[OF rc] sink_waits_set[OF sw] by simp
  have d: "distinct outs"
    using raise_comms_set(2)[OF rc] sink_waits_distinct[OF sw] dn by simp
  have "distinct souts" unfolding so distinct_map using d inj_on_snode[OF inj] s by simp
  from that[OF sw rc so s d this] show thesis .
qed

lemma dumb_reordering_comm_order:
  assumes run: "dumb_reordering g nodes = Inr souts" and dn: "distinct nodes"
    and inj: "inj_on (fusion_meta g) {n \<in> set nodes. fusion_meta g n \<noteq> None}"
    and ab: "is_comm g a" "is_comm g b" "precedes a b nodes"
  shows "precedes (the (fusion_meta g a)) (the (fusion_meta g b)) souts \<and>
         \<not> precedes (the (fusion_meta g b)) (the (fusion_meta g a)) souts"
proof -
  from dumb_reordering_snodes[OF run dn inj] obtain r1 outs where
    sw: "sink_waits g (filter (\<lambda>node. fusion_meta g node \<noteq> None) nodes) = Inr r1"
    and rc: "raise_comms g r1 = Inr outs" and so: "souts = map (\<lambda>node. the (fusion_meta g node)) outs"
    and ds: "distinct souts"
    by blast
  from ab(3) is_comm_meta[OF ab(1)] is_comm_meta[OF ab(2)]
  have "precedes a b (filter (\<lambda>node. fusion_meta g node \<noteq> None) nodes)"
    by (simp only: precedes_filter simp_thms)
  with sink_waits_others_order[OF sw is_comm_not_wait[OF ab(1)] is_comm_not_wait[OF ab(2)]]
  have "precedes a b r1" by simp
  with raise_comms_comms_order[OF rc ab(1,2)] have "precedes a b outs" by simp
  then have "precedes (the (fusion_meta g a)) (the (fusion_meta g b)) souts"
    unfolding so by (rule precedes_map)
  with precedes_asym[OF ds] show ?thesis by blast
qed

lemma dumb_reordering_topological:
  assumes run: "dumb_reordering g nodes = Inr souts"
    and dn: "distinct nodes"
    and cons: "\<forall>v\<in>set nodes. \<forall>u\<in>set (args g v). u \<in> set nodes \<longrightarrow> v \<in> set (users g u)"
    and topo: "topological g nodes"
    and ww: "\<forall>v\<in>set nodes. \<forall>u\<in>set (args g v). u \<in> set nodes \<longrightarrow> \<not> (is_wait g u \<and> is_wait g v)"
    and inj: "inj_on (fusion_meta g) {n \<in> set nodes. fusion_meta g n \<noteq> None}"
  shows "distinct souts \<and>
     set souts = (\<lambda>node. the (fusion_meta g node)) ` {n \<in> set nodes. fusion_meta g n \<noteq> None} \<and>
     (\<forall>v\<in>set nodes. \<forall>u\<in>set (args g v).
        u \<in> set nodes \<and> fusion_meta g u \<noteq> None \<and> fusion_meta g v \<noteq> None \<longrightarrow>
        precedes (the (fusion_meta g u)) (the (fusion_meta g v)) souts)"
proof -
  let ?N = "filter (\<lambda>node. fusion_meta g node \<noteq> None) nodes"
  from dumb_reordering_snodes[OF run dn inj] obtain r1 outs where
    sw: "sink_waits g ?N = Inr r1"
    and rc: "raise_comms g r1 = Inr outs" and so: "souts = map (\<lambda>node. the (fusion_meta g node)) outs"
    and s: "set outs = {n \<in> set nodes. fusion_meta g n \<noteq> None}" and ds: "distinct souts"
    by blast
  have c1: "\<forall>v\<in>set ?N. \<forall>u\<in>set (args g v). u \<in> set ?N \<longrightarrow> v \<in> set (users g u)"
    using cons by simp
  have w1: "\<forall>v\<in>set ?N. \<forall>u\<in>set (args g v). u \<in> set ?N \<longrightarrow> \<not> (is_wait g u \<and> is_wait g v)"
    using ww by simp
  from sink_waits_topological[OF sw topological_filter[OF topo] c1 w1] have t1: "topological g r1" .
  from raise_comms_topological[OF rc t1] have t2: "topological g outs" .
  have "precedes (the (fusion_meta g u)) (the (fusion_meta g v)) souts"
    if "v \<in> set nodes" "u \<in> set (args g v)" "u \<in> set nodes" "fusion_meta g u \<noteq> None" "fusion_meta g v \<noteq> None"
    for u v
  proof -
    from that s have "v \<in> set outs" "u \<in> set outs" by simp_all
    with t2 that(2) have "precedes u v outs" unfolding topological_def by blast
    then show ?thesis unfolding so by (rule precedes_map)
  qed
  moreover have "set souts = (\<lambda>node. the (fusion_meta g node)) ` {n \<in> set nodes. fusion_meta g n \<noteq> None}"
    unfolding so using s by simp
  ultimately show ?thesis using ds by blast
qed

section \<open>The Overlap Scheduler raises nothing but \<open>AssertionError\<close>\<close>

lemma get_runtime_fx_meta: "fusion_meta g n \<noteq> None \<Longrightarrow> \<exists>c. get_runtime_fx g n = Inr c"
  by (auto simp: get_runtime_fx_def)

lemma sum_runtime_meta: "\<forall>n\<in>set xs. fusion_meta g n \<noteq> None \<Longrightarrow> \<exists>c. sum_runtime g xs = Inr c"
proof (induction xs)
  case Nil
  then show ?case by simp
next
  case (Cons x xs)
  then obtain c t where "get_runtime_fx g x = Inr c" "sum_runtime g xs = Inr t"
    using get_runtime_fx_meta[of g x] by auto
  then show ?case by simp
qed

lemma isinstance_meta: "fusion_meta g n \<noteq> None \<Longrightarrow> \<exists>b. isinstance_snode g n cls = Inr b"
  by (auto simp: isinstance_snode_def)

lemma add_node_err: "add_node g n st = Inl e \<Longrightarrow> e = AssertionError"
  by (auto simp: add_node_def split: if_splits)

lemma add_free_err: "add_free g xs s = Inl e \<Longrightarrow> e = AssertionError"
proof (induction g xs s rule: add_free.induct)
  case (1 g s)
  then show ?case by simp
next
  case (2 g node rest st all_nodes)
  then show ?case by (auto split: if_splits sum.splits dest: add_node_err)
qed

lemma add_all_loop_err:
  assumes run: "add_all_loop g st all = Some y"
  shows "\<forall>e. y = Inl e \<longrightarrow> e = AssertionError"
proof (rule add_all_loop.raw_induct[where P = "\<lambda>g st all y. \<forall>e. y = Inl e \<longrightarrow> e = AssertionError",
      OF _ run])
  fix f and g :: "'a graph" and st all y
  assume IH: "\<And>g st all y. f g st all = Some y \<Longrightarrow> \<forall>e. y = Inl e \<longrightarrow> e = AssertionError"
    and body: "(if all = {} then Some (Inr st)
       else case add_free g (tuple_sorted_set all) (st, all) of
              Inl e \<Rightarrow> Some (Inl e)
            | Inr (st', all_nodes') \<Rightarrow> f g st' all_nodes') = Some y"
  show "\<forall>e. y = Inl e \<longrightarrow> e = AssertionError"
  proof (cases "all = {}")
    case True
    with body show ?thesis by auto
  next
    case False
    show ?thesis
    proof (cases "add_free g (tuple_sorted_set all) (st, all)")
      case (Inl e')
      with body False add_free_err[OF Inl] show ?thesis by auto
    next
      case (Inr s1)
      obtain st1 all1 where s1: "s1 = (st1, all1)" by (cases s1)
      with body False Inr have "f g st1 all1 = Some y" by simp
      from IH[OF this] show ?thesis .
    qed
  qed
qed

lemma add_all_nodes_err: "add_all_nodes g nodes st = Some (Inl e) \<Longrightarrow> e = AssertionError"
  using add_all_loop_err[of g st nodes "Inl e"]
  by (auto simp: add_all_nodes_def split: if_splits)

lemma fill_overlap_err:
  assumes "fill_overlap g comm_cost xs (st, t) = Inl e" "\<forall>n\<in>set xs. fusion_meta g n \<noteq> None"
  shows "e = AssertionError"
  using assms
proof (induction xs arbitrary: st t)
  case Nil
  then show ?case by simp
next
  case (Cons node rest)
  from Cons.prems(2) obtain b c where b: "isinstance_snode g node CollectiveKernel = Inr b"
    and c: "get_runtime_fx g node = Inr c"
    using isinstance_meta[of g node CollectiveKernel] get_runtime_fx_meta[of g node] by auto
  from Cons.prems(2) have rest: "\<forall>n\<in>set rest. fusion_meta g n \<noteq> None" by simp
  show ?case
  proof (cases "comm_cost \<le> t")
    case True
    with Cons.prems(1) show ?thesis by simp
  next
    case False
    show ?thesis
    proof (cases "b \<or> comm_cost - t \<le> c / 2")
      case True
      have "fill_overlap g comm_cost rest (st, t) = Inl e"
      proof (cases b)
        case True
        with Cons.prems(1) False b show ?thesis by simp
      next
        case nb: False
        with True have "comm_cost - t \<le> c / 2" by simp
        with Cons.prems(1) False b c nb show ?thesis by simp
      qed
      from Cons.IH[OF this rest] show ?thesis .
    next
      case nskip: False
      show ?thesis
      proof (cases "add_node g node st")
        case (Inl e')
        with Cons.prems(1) False b c nskip have "e = e'" by (cases b) simp_all
        with add_node_err[OF Inl] show ?thesis by simp
      next
        case (Inr st1)
        with Cons.prems(1) False b c nskip
        have "fill_overlap g comm_cost rest (st1, t + c) = Inl e" by (cases b) simp_all
        from Cons.IH[OF this rest] show ?thesis .
      qed
    qed
  qed
qed

lemma sched_inv_meta:
  assumes "sched_inv g N st" "\<forall>n\<in>set N. fusion_meta g n \<noteq> None"
  shows "\<forall>n\<in>unused_nodes st. fusion_meta g n \<noteq> None" "\<forall>n\<in>free_nodes st. fusion_meta g n \<noteq> None"
    "\<forall>n\<in>set (result st). fusion_meta g n \<noteq> None" "finite (unused_nodes st)" "finite (free_nodes st)"
proof -
  from assms(1) have u: "unused_nodes st \<subseteq> set N" and f: "free_nodes st \<subseteq> unused_nodes st"
    and r: "set (result st) \<subseteq> set N"
    by (auto simp: sched_inv_def)
  from u f r assms(2) show "\<forall>n\<in>unused_nodes st. fusion_meta g n \<noteq> None"
    "\<forall>n\<in>free_nodes st. fusion_meta g n \<noteq> None" "\<forall>n\<in>set (result st). fusion_meta g n \<noteq> None"
    by blast+
  from u show "finite (unused_nodes st)" by (rule finite_subset) simp
  with f show "finite (free_nodes st)" by (rule finite_subset)
qed

lemma priority2_err:
  assumes run: "priority2 g cn anc desc prev comm_cost (st, t) = Inl e"
    and inv: "sched_inv g N st" and meta: "\<forall>n\<in>set N. fusion_meta g n \<noteq> None"
  shows "e = AssertionError"
proof (cases "comm_cost \<le> t")
  case True
  with run show ?thesis by (simp add: priority2_def)
next
  case False
  let ?xs = "sort_key (earliest_comm_descendant cn anc) (tuple_sorted_set (free_nodes st - desc prev))"
  from False run have f: "fill_overlap g comm_cost ?xs (st, t) = Inl e" by (simp add: priority2_def)
  have "set ?xs \<subseteq> free_nodes st" using tuple_sorted_set_props(2)[of "free_nodes st - desc prev"] by auto
  with sched_inv_meta(2)[OF inv meta] have "\<forall>n\<in>set ?xs. fusion_meta g n \<noteq> None" by blast
  from fill_overlap_err[OF f this] show ?thesis .
qed

lemma overlap_step_err:
  assumes run: "overlap_step g cn anc desc idx (st, r) = Some (Inl e)"
    and inv: "sched_inv g N st" and du: "\<forall>u\<in>set N. distinct (users g u)"
    and meta: "\<forall>n\<in>set N. fusion_meta g n \<noteq> None"
    and prev: "fusion_meta g (cn ! (idx - 1)) \<noteq> None"
  shows "e = AssertionError"
proof -
  let ?prev = "cn ! (idx - 1)" and ?next = "cn ! idx"
  let ?p1 = "unused_nodes st \<inter> (anc ?next - desc ?prev)"
  have "set (tuple_sorted_set ?p1) \<subseteq> unused_nodes st" using tuple_sorted_set_props(2)[of ?p1] by auto
  with sched_inv_meta(1)[OF inv meta] have "\<forall>n\<in>set (tuple_sorted_set ?p1). fusion_meta g n \<noteq> None"
    by blast
  from sum_runtime_meta[OF this] obtain batch where b: "sum_runtime g (tuple_sorted_set ?p1) = Inr batch"
    by blast
  from get_runtime_fx_meta[OF prev] obtain cc where c: "get_runtime_fx g ?prev = Inr cc" by blast
  show ?thesis
  proof (cases "add_all_nodes g ?p1 st")
    case None
    with run b c show ?thesis by (simp add: overlap_step_def Let_def and_then_def)
  next
    case (Some y1)
    show ?thesis
    proof (cases y1)
      case (Inl e1)
      with Some run b c have "e = e1" by (simp add: overlap_step_def Let_def and_then_def)
      with add_all_nodes_err[of g ?p1 st e1] Some Inl show ?thesis by simp
    next
      case (Inr st1)
      with Some have a1: "add_all_nodes g ?p1 st = Some (Inr st1)" by simp
      from add_all_nodes_inv(1)[OF a1 inv du] have i1: "sched_inv g N st1" .
      show ?thesis
      proof (cases "priority2 g cn anc desc ?prev cc (st1, r + batch)")
        case (Inl e2)
        with run b c a1 have "e = e2" by (simp add: overlap_step_def Let_def and_then_def)
        with priority2_err[OF Inl i1 meta] show ?thesis by simp
      next
        case (Inr s2)
        obtain st2 total where s2: "s2 = (st2, total)" by (cases s2)
        with Inr have p2: "priority2 g cn anc desc ?prev cc (st1, r + batch) = Inr (st2, total)" by simp
        let ?p3 = "insert ?next (unused_nodes st2 \<inter> anc ?next)"
        show ?thesis
        proof (cases "add_all_nodes g ?p3 st2")
          case None
          with run b c a1 p2 show ?thesis by (simp add: overlap_step_def Let_def and_then_def)
        next
          case (Some y3)
          show ?thesis
          proof (cases y3)
            case (Inl e3)
            with Some run b c a1 p2 have "e = e3" by (simp add: overlap_step_def Let_def and_then_def)
            with add_all_nodes_err[of g ?p3 st2 e3] Some Inl show ?thesis by simp
          next
            case (Inr st3)
            with Some run b c a1 p2 show ?thesis by (simp add: overlap_step_def Let_def and_then_def)
          qed
        qed
      qed
    qed
  qed
qed

lemma overlap_loop_err:
  assumes "overlap_loop g cn anc desc idxs (st, r) = Some (Inl e)"
    "sched_inv g N st" "\<forall>u\<in>set N. distinct (users g u)"
    "\<forall>n\<in>set N. fusion_meta g n \<noteq> None"
    "\<forall>idx\<in>set idxs. fusion_meta g (cn ! (idx - 1)) \<noteq> None"
  shows "e = AssertionError"
  using assms(1,2,5)
proof (induction idxs arbitrary: st r)
  case Nil
  then show ?case by simp
next
  case (Cons idx idxs)
  from Cons.prems(3) have p: "fusion_meta g (cn ! (idx - 1)) \<noteq> None"
    and ps: "\<forall>idx\<in>set idxs. fusion_meta g (cn ! (idx - 1)) \<noteq> None" by simp_all
  show ?case
  proof (cases "overlap_step g cn anc desc idx (st, r)")
    case None
    with Cons.prems(1) show ?thesis by (simp add: and_then_def)
  next
    case (Some y)
    show ?thesis
    proof (cases y)
      case (Inl e1)
      with Some have s: "overlap_step g cn anc desc idx (st, r) = Some (Inl e1)" by simp
      with Cons.prems(1) have "e = e1" by (simp add: and_then_def)
      with overlap_step_err[OF s Cons.prems(2) assms(3,4) p] show ?thesis by simp
    next
      case (Inr s1)
      obtain st1 r1 where s1: "s1 = (st1, r1)" by (cases s1)
      with Some Inr have s: "overlap_step g cn anc desc idx (st, r) = Some (Inr (st1, r1))" by simp
      with Cons.prems(1) have l: "overlap_loop g cn anc desc idxs (st1, r1) = Some (Inl e)"
        by (simp add: and_then_def)
      from overlap_step_inv[OF s Cons.prems(2) assms(3)] have "sched_inv g N st1" .
      from Cons.IH[OF l this ps] show ?thesis .
    qed
  qed
qed

lemma sink_loop_meta:
  "\<forall>n\<in>set xs. fusion_meta g n \<noteq> None \<Longrightarrow> \<exists>r. sink_loop g xs s = Inr r"
proof (induction xs arbitrary: s)
  case Nil
  then show ?case by simp
next
  case (Cons x xs)
  obtain res cw where s: "s = (res, cw)" by (cases s)
  from Cons.prems obtain b where b: "isinstance_snode g x Wait = Inr b"
    using isinstance_meta[of g x Wait] by auto
  from Cons.prems have "\<forall>n\<in>set xs. fusion_meta g n \<noteq> None" by simp
  from Cons.IH[OF this] b s show ?case by (cases b) (auto split: prod.splits)
qed

lemma sink_waits_meta:
  "\<forall>n\<in>set s. fusion_meta g n \<noteq> None \<Longrightarrow> \<exists>r. sink_waits g s = Inr r"
  using sink_loop_meta[of s g "([], {})"] by (auto simp: sink_waits_def)

lemma raise_loop_meta:
  "\<forall>n\<in>set xs. fusion_meta g n \<noteq> None \<Longrightarrow> \<exists>r. raise_loop g xs s = Inr r"
proof (induction xs arbitrary: s)
  case Nil
  then show ?case by simp
next
  case (Cons x xs)
  obtain res cur where s: "s = (res, cur)" by (cases s)
  from Cons.prems obtain b where b: "isinstance_snode g x CollectiveKernel = Inr b"
    using isinstance_meta[of g x CollectiveKernel] by auto
  from Cons.prems have "\<forall>n\<in>set xs. fusion_meta g n \<noteq> None" by simp
  from Cons.IH[OF this] b s show ?case by (cases b) (auto split: prod.splits)
qed

lemma raise_comms_err:
  assumes "\<forall>n\<in>set s. fusion_meta g n \<noteq> None" "raise_comms g s = Inl e"
  shows "e = AssertionError"
proof -
  from assms(1) have "\<forall>n\<in>set (rev s). fusion_meta g n \<noteq> None" by simp
  from raise_loop_meta[OF this, of "([], [])"] obtain r where "raise_loop g (rev s) ([], []) = Inr r"
    by blast
  with assms(2) show ?thesis by (auto simp: raise_comms_def split: prod.splits if_splits)
qed

text \<open>Every node that \<open>smart_reordering\<close> handles carries \<open>fusion_meta\<close>, so no read of the
  key fails: the only exception of \<open>smart_reordering\<close> is a failed assertion.\<close>

lemma smart_reordering_err:
  assumes run: "smart_reordering g nodes = Some (Inl e)"
    and dn: "distinct nodes" and du: "\<forall>u\<in>set nodes. distinct (users g u)"
  shows "e = AssertionError"
proof -
  let ?N = "filter (\<lambda>node. fusion_meta g node \<noteq> None) nodes"
  let ?cn = "filter (is_comm g) ?N"
  have dN: "distinct ?N" using dn by simp
  have duN: "\<forall>u\<in>set ?N. distinct (users g u)" using du by simp
  have meta: "\<forall>n\<in>set ?N. fusion_meta g n \<noteq> None" by simp
  from run have ne: "?cn \<noteq> []" by (auto simp: smart_reordering_def Let_def split: if_splits)
  with run obtain anc desc where
    r0: "and_then (add_all_nodes g (insert (?cn ! 0) (the (anc (?cn ! 0)))) (init_sched g ?N)) (\<lambda>st.
           and_then (overlap_loop g ?cn (\<lambda>c. the (anc c)) (\<lambda>c. the (desc c))
                       [1 ..< length (remdups ?cn)] (st, 0)) (\<lambda>(st, rolled_over_compute).
           and_then (add_all_nodes g (unused_nodes st) st) (\<lambda>st.
           and_then (Some (sink_waits g (result st))) (\<lambda>result.
           Some (raise_comms g result))))) = Some (Inl e)"
    unfolding smart_reordering_def Let_def
    by (auto split: option.splits)
  let ?anc = "\<lambda>c. the (anc c)" and ?desc = "\<lambda>c. the (desc c)"
  let ?idxs = "[1 ..< length (remdups ?cn)]"
  from init_sched_inv[OF dN duN] have i0: "sched_inv g ?N (init_sched g ?N)" .
  have prevs: "\<forall>idx\<in>set ?idxs. fusion_meta g (?cn ! (idx - 1)) \<noteq> None"
  proof
    fix idx assume "idx \<in> set ?idxs"
    then have "idx - 1 < length (remdups ?cn)" by auto
    also have "\<dots> \<le> length ?cn" by (rule length_remdups_leq)
    finally have "?cn ! (idx - 1) \<in> set ?cn" by (rule nth_mem)
    then show "fusion_meta g (?cn ! (idx - 1)) \<noteq> None" by auto
  qed
  let ?a0 = "add_all_nodes g (insert (?cn ! 0) (?anc (?cn ! 0))) (init_sched g ?N)"
  show ?thesis
  proof (cases ?a0)
    case None
    with r0 show ?thesis by (simp add: and_then_def)
  next
    case (Some y0)
    show ?thesis
    proof (cases y0)
      case (Inl e0)
      with Some r0 have "e = e0" by (simp add: and_then_def)
      with add_all_nodes_err[of g _ _ e0] Some Inl show ?thesis by simp
    next
      case (Inr st1)
      with Some have a1: "?a0 = Some (Inr st1)" by simp
      from add_all_nodes_inv(1)[OF a1 i0 duN] have i1: "sched_inv g ?N st1" .
      from r0 a1 have r1: "and_then (overlap_loop g ?cn ?anc ?desc ?idxs (st1, 0)) (\<lambda>(st, rolled_over_compute).
           and_then (add_all_nodes g (unused_nodes st) st) (\<lambda>st.
           and_then (Some (sink_waits g (result st))) (\<lambda>result.
           Some (raise_comms g result)))) = Some (Inl e)"
        by (simp add: and_then_def)
      show ?thesis
      proof (cases "overlap_loop g ?cn ?anc ?desc ?idxs (st1, 0)")
        case None
        with r1 show ?thesis by (simp add: and_then_def)
      next
        case (Some y1)
        show ?thesis
        proof (cases y1)
          case (Inl e1)
          with Some have l: "overlap_loop g ?cn ?anc ?desc ?idxs (st1, 0) = Some (Inl e1)" by simp
          with r1 have "e = e1" by (simp add: and_then_def)
          with overlap_loop_err[OF l i1 duN meta prevs] show ?thesis by simp
        next
          case (Inr s2)
          obtain st2 ro where s2: "s2 = (st2, ro)" by (cases s2)
          with Some Inr have l: "overlap_loop g ?cn ?anc ?desc ?idxs (st1, 0) = Some (Inr (st2, ro))"
            by simp
          from overlap_loop_inv[OF l i1 duN] have i2: "sched_inv g ?N st2" .
          from r1 l have r2: "and_then (add_all_nodes g (unused_nodes st2) st2) (\<lambda>st.
              and_then (Some (sink_waits g (result st))) (\<lambda>result.
              Some (raise_comms g result))) = Some (Inl e)"
            by (simp add: and_then_def)
          show ?thesis
          proof (cases "add_all_nodes g (unused_nodes st2) st2")
            case None
            with r2 show ?thesis by (simp add: and_then_def)
          next
            case (Some y2)
            show ?thesis
            proof (cases y2)
              case (Inl e2)
              with Some r2 have "e = e2" by (simp add: and_then_def)
              with add_all_nodes_err[of g _ _ e2] Some Inl show ?thesis by simp
            next
              case (Inr st3)
              with Some have a3: "add_all_nodes g (unused_nodes st2) st2 = Some (Inr st3)" by simp
              from add_all_nodes_inv(1)[OF a3 i2 duN] have i3: "sched_inv g ?N st3" .
              note m3 = sched_inv_meta(3)[OF i3 meta]
              from sink_waits_meta[OF m3] obtain r1 where sw: "sink_waits g (result st3) = Inr r1"
                by blast
              from r2 a3 sw have rc: "raise_comms g r1 = Inl e" by (simp add: and_then_def)
              have "\<forall>n\<in>set r1. fusion_meta g n \<noteq> None" using sink_waits_set[OF sw] m3 by simp
              from raise_comms_err[OF this rc] show ?thesis .
            qed
          qed
        qed
      qed
    qed
  qed
qed

section \<open>Runs on the concrete graphs\<close>

lemma g_placeholder_run: "smart_reordering g_placeholder [1, 0] = Some (Inr [0])"
  by code_simp

lemma g_placeholder_no_comm: "filter (is_comm g_placeholder) [1, 0] = []"
  by code_simp

lemma g_scenario_run:
  "smart_reordering g_scenario [''A'', ''C1'', ''W1'', ''B'', ''C2'', ''W2'', ''D'']
     = Some (Inr [''A'', ''C1'', ''W1'', ''B'', ''C2'', ''W2'', ''D''])"
  by code_simp

lemma g_scenario_variants:
  "smart_reordering g_scenario [''A'', ''C1'', ''B'', ''W1'', ''C2'', ''W2'', ''D'']
     = Some (Inr [''A'', ''C1'', ''W1'', ''B'', ''C2'', ''W2'', ''D''])"
  "smart_reordering g_scenario_data [''A'', ''C1'', ''W1'', ''B'', ''C2'', ''W2'', ''D'']
     = Some (Inr [''A'', ''C1'', ''W1'', ''B'', ''C2'', ''W2'', ''D''])"
  "smart_reordering g_scenario_data [''A'', ''C1'', ''B'', ''W1'', ''C2'', ''W2'', ''D'']
     = Some (Inr [''A'', ''C1'', ''W1'', ''B'', ''C2'', ''W2'', ''D''])"
  by code_simp+

lemma g_scenario_wf:
  "distinct [''A'', ''C1'', ''W1'', ''B'', ''C2'', ''W2'', ''D'']"
  "\<forall>u\<in>set [''A'', ''C1'', ''W1'', ''B'', ''C2'', ''W2'', ''D'']. distinct (users g_scenario u)"
  "\<forall>v\<in>set [''A'', ''C1'', ''W1'', ''B'', ''C2'', ''W2'', ''D'']. \<forall>u\<in>set (args g_scenario v).
      u \<in> set [''A'', ''C1'', ''W1'', ''B'', ''C2'', ''W2'', ''D''] \<longrightarrow> v \<in> set (users g_scenario u)"
  "topological g_scenario [''A'', ''C1'', ''W1'', ''B'', ''C2'', ''W2'', ''D'']"
  "\<forall>v\<in>set [''A'', ''C1'', ''W1'', ''B'', ''C2'', ''W2'', ''D'']. \<forall>u\<in>set (args g_scenario v).
      u \<in> set [''A'', ''C1'', ''W1'', ''B'', ''C2'', ''W2'', ''D''] \<longrightarrow>
      \<not> (is_wait g_scenario u \<and> is_wait g_scenario v)"
  by code_simp+

lemma g_scenario_dumb:
  "dumb_reordering g_scenario [''A'', ''C1'', ''W1'', ''B'', ''C2'', ''W2'', ''D'']
     = Inr (map (\<lambda>node. the (fusion_meta g_scenario node)) [''A'', ''C1'', ''W1'', ''B'', ''C2'', ''W2'', ''D''])"
  by code_simp

lemma g_scenario_raise:
  "topological g_scenario [''A'', ''C1'', ''W1'', ''B'', ''C2'', ''W2'', ''D'']"
  "raise_comms g_scenario [''A'', ''C1'', ''W1'', ''B'', ''C2'', ''W2'', ''D'']
     = Inr [''A'', ''C1'', ''W1'', ''B'', ''C2'', ''W2'', ''D'']"
  "filter (is_comm g_scenario) [''A'', ''C1'', ''W1'', ''B'', ''C2'', ''W2'', ''D''] = [''C1'', ''C2'']"
  "''C1'' \<in> set (args g_scenario ''C2'')"
  "is_comm g_scenario ''C2''"
  "comm_raiser_claim g_scenario [''A'', ''C1'', ''W1'', ''B'', ''C2'', ''W2'', ''D''] ''C2''"
  by code_simp+

lemma g_scenario_data_facts:
  "\<forall>u\<in>set [''A'', ''C1'', ''W1'', ''B'', ''C2'', ''W2'', ''D'']. distinct (users g_scenario_data u)"
  "is_comm g_scenario_data ''C1''" "is_comm g_scenario_data ''C2''"
  "precedes ''C1'' ''C2'' [''A'', ''C1'', ''W1'', ''B'', ''C2'', ''W2'', ''D'']"
  "smart_reordering (decide_global_ordering_comms g_scenario_data [''A'', ''C1'', ''W1'', ''B'', ''C2'', ''W2'', ''D''])
      [''A'', ''C1'', ''W1'', ''B'', ''C2'', ''W2'', ''D'']
     = Some (Inr [''A'', ''C1'', ''W1'', ''B'', ''C2'', ''W2'', ''D''])"
  "dumb_reordering (decide_global_ordering_comms g_scenario_data [''A'', ''C1'', ''W1'', ''B'', ''C2'', ''W2'', ''D''])
      [''A'', ''C1'', ''W1'', ''B'', ''C2'', ''W2'', ''D'']
     = Inr (map (\<lambda>node. the (fusion_meta g_scenario_data node)) [''A'', ''C1'', ''W1'', ''B'', ''C2'', ''W2'', ''D''])"
  "precedes ''C1'' ''C2'' [''A'', ''C1'', ''W1'', ''B'', ''C2'', ''W2'', ''D'']"
  by code_simp+

lemma g_cycle_run: "smart_reordering g_cycle [0, 1] = Some (Inr [0, 1])"
  by code_simp

lemma g_cycle_edges: "1 \<in> set (users g_cycle 0)" "0 \<in> set (users g_cycle 1)"
  by code_simp+

lemma g_cycle_comm_facts:
  "distinct [0, 1, 2::nat]"
  "\<forall>u\<in>set [0, 1, 2]. distinct (users g_cycle_comm u)"
  "filter (\<lambda>node. fusion_meta g_cycle_comm node \<noteq> None) [0, 1, 2] = [0, 1, 2]"
  "filter (is_comm g_cycle_comm) [0, 1, 2] = [0]"
  "2 \<in> set (users g_cycle_comm 1)" "1 \<in> set (users g_cycle_comm 2)"
  by code_simp+

lemma g_cycle_comm_dicts:
  "case build_dict (get_ancestors g_cycle_comm) [0] of None \<Rightarrow> False | Some anc \<Rightarrow> the (anc 0) = {}"
  "case build_dict (get_descendants g_cycle_comm) [0] of None \<Rightarrow> False | Some desc \<Rightarrow> True"
  "case add_all_nodes g_cycle_comm {0} (init_sched g_cycle_comm [0, 1, 2]) of
     Some (Inr st) \<Rightarrow> unused_nodes st = {1, 2} \<and> free_nodes st = {} | _ \<Rightarrow> False"
  by code_simp+

lemma g_cycle_comm_diverges: "smart_reordering g_cycle_comm [0, 1, 2] = None"
proof -
  from g_cycle_comm_dicts(1) obtain anc where
    anc: "build_dict (get_ancestors g_cycle_comm) [0] = Some anc" "the (anc 0) = {}"
    by (auto split: option.splits)
  from g_cycle_comm_dicts(2) obtain desc where
    desc: "build_dict (get_descendants g_cycle_comm) [0] = Some desc"
    by (auto split: option.splits)
  from g_cycle_comm_dicts(3) obtain st where
    st: "add_all_nodes g_cycle_comm {0} (init_sched g_cycle_comm [0, 1, 2]) = Some (Inr st)"
      "unused_nodes st = {1, 2}" "free_nodes st = {}"
    by (auto split: option.splits sum.splits)
  have "add_all_loop g_cycle_comm st {1, 2} = None"
    by (rule add_all_loop_stuck) (simp_all add: st(3))
  then have stuck: "add_all_nodes g_cycle_comm (unused_nodes st) st = None"
    by (simp add: add_all_nodes_def st(2))
  show ?thesis
    unfolding smart_reordering_def Let_def g_cycle_comm_facts(3,4) anc(1) desc option.case
    by (simp add: anc(2) st(1) stuck and_then_def del: One_nat_def)
qed

lemma g_cycle_comm_cyclic:
  "\<not> acyclic (users_edges g_cycle_comm (filter (\<lambda>node. fusion_meta g_cycle_comm node \<noteq> None) [0, 1, 2]))"
proof -
  let ?E = "users_edges g_cycle_comm [0, 1, 2]"
  have "(1, 2) \<in> ?E" "(2, 1) \<in> ?E" using g_cycle_comm_facts(5,6) by (simp_all add: users_edges_def)
  then have "(1, 1) \<in> ?E\<^sup>+" by (meson trancl.intros)
  then show ?thesis unfolding g_cycle_comm_facts(3) acyclic_def by blast
qed

text \<open>A wait that consumes a wait: \<open>sink_waits\<close> releases a pending wait only when it
  meets a user that is not a wait, so the wait 1 comes out after its consumer 2. The
  statements on the order of a schedule leave such graphs aside.\<close>

lemma g_wait_chain_facts:
  "topological g_wait_chain [0, 1, 2, 3]"
  "smart_reordering g_wait_chain [0, 1, 2, 3] = Some (Inr [0, 2, 3, 1])"
  "dumb_reordering g_wait_chain [0, 1, 2, 3]
     = Inr (map (\<lambda>node. the (fusion_meta g_wait_chain node)) [0, 2, 3, 1])"
  "1 \<in> set (args g_wait_chain 2)"
  "\<not> precedes 1 2 [0, 2, 3, 1::nat]"
  "\<not> topological g_wait_chain [0, 2, 3, 1]"
  by code_simp+

lemma g_two_waits_raise:
  "topological g_two_waits [0, 1, 2, 3, 4]"
  "smart_reordering g_two_waits [0, 1, 2, 3, 4] = Some (Inl AssertionError)"
  "dumb_reordering g_two_waits [0, 1, 2, 3, 4] = Inl AssertionError"
  by code_simp+

lemma g_two_comms_facts:
  "distinct [0, 1, 2, 3::nat]"
  "topological g_two_comms [0, 1, 2, 3]"
  "raise_comms g_two_comms [0, 1, 2, 3] = Inr [0, 1, 2, 3]"
  "is_comm g_two_comms 3"
  "args g_two_comms 3 = [0]"
  "\<not> comm_raiser_claim g_two_comms [0, 1, 2, 3] 3"
  by code_simp+

lemma g_frame_sink: "sink_waits g_frame [0,3,1,2,5,4] = Inr [0,3,1,5,2,4]"
  by (simp add: sink_waits_def g_frame_def graph_of_def mk_def isinstance_snode_def tuple_sorted_set_def)

lemma g_frame_raise: "raise_comms g_frame [0,3,1,2,5,4] = Inr [0,1,3,2,5,4]"
  by (simp add: raise_comms_def g_frame_def graph_of_def mk_def isinstance_snode_def tuple_sorted_def)

lemma g_two_waits_sink: "sink_waits g_two_waits [0,1,2,3,4] = Inr [0,1,2,3,4]"
  by code_simp

lemma g_two_waits_claim_fails: "\<not> wait_sinker_claim g_two_waits [0,1,2,3,4] 2"
  by code_simp

lemma g_two_waits_kinds:
  "is_wait g_two_waits 2" "is_wait g_two_waits 3" "\<not> is_wait g_two_waits 4"
  by (simp_all add: is_wait_def g_two_waits_def graph_of_def mk_def isinstance_snode_def)

text \<open>In a graph given by a table every scheduler node is named after its row, so
  different nodes carry different scheduler nodes.\<close>

lemma graph_of_name:
  "fusion_meta (graph_of tbl) n = Some sn \<Longrightarrow> get_name sn = n"
  by (auto simp: graph_of_def split: option.splits prod.splits)

lemma graph_of_inj: "inj_on (fusion_meta (graph_of tbl)) {n \<in> A. fusion_meta (graph_of tbl) n \<noteq> None}"
proof (rule inj_onI)
  fix x y
  assume x: "x \<in> {n \<in> A. fusion_meta (graph_of tbl) n \<noteq> None}"
    and y: "y \<in> {n \<in> A. fusion_meta (graph_of tbl) n \<noteq> None}"
    and e: "fusion_meta (graph_of tbl) x = fusion_meta (graph_of tbl) y"
  from x obtain sn where sx: "fusion_meta (graph_of tbl) x = Some sn" by auto
  with e have sy: "fusion_meta (graph_of tbl) y = Some sn" by simp
  from graph_of_name[OF sx] graph_of_name[OF sy] show "x = y" by simp
qed

lemma g_placeholder_facts:
  "topological g_placeholder [1, 0]" "1 \<in> set (args g_placeholder 0)"
  "\<not> precedes 1 0 [0::nat]"
  "dumb_reordering g_placeholder [1, 0] = Inr [the (fusion_meta g_placeholder 0)]"
  by code_simp+

lemma g_cycle_placeholder_facts:
  "2 \<in> set (users g_cycle_placeholder 1)" "1 \<in> set (users g_cycle_placeholder 2)"
  "smart_reordering g_cycle_placeholder [0, 1, 2] = Some (Inr [0, 1])"
  by code_simp+

lemma g_fill_facts:
  "smart_reordering g_fill [0, 1, 2, 3] = Some (Inr [0, 1, 2, 3])"
  "filter (is_comm g_fill) [0, 1, 2, 3] = [0, 2]"
  "the (get_ancestors g_fill 0) = {}"
  "the (get_ancestors g_fill 2) = {0, 1}"
  "the (get_descendants g_fill 0) = {2}"
  "sum_runtime g_fill (tuple_sorted_set {1}) = Inr 3"
  "get_runtime_fx g_fill 0 = Inr 1"
  by code_simp+

text \<open>The states of the scheduler on \<open>g_fill\<close>: \<open>st\<close> when the main loop begins, and \<open>st1\<close>
  after the Priority 1 batch of the only iteration.\<close>

lemma comp_returns:
  "(case m of Some (Inr x) \<Rightarrow> P x | _ \<Rightarrow> False) \<Longrightarrow> \<exists>x. m = Some (Inr x) \<and> P x"
  by (auto split: option.splits sum.splits)

lemma g_fill_states:
  "case add_all_nodes g_fill {0} (init_sched g_fill [0, 1, 2, 3]) of
     Some (Inr st) \<Rightarrow>
       unused_nodes st = {1, 2, 3} \<and> result st = [0] \<and>
       (case add_all_nodes g_fill {1} st of
          Some (Inr st1) \<Rightarrow> result st1 = [0, 1] \<and> 3 \<in> free_nodes st1 \<and> unused_nodes st1 = {2, 3}
        | _ \<Rightarrow> False)
   | _ \<Rightarrow> False"
  by code_simp

lemma g_two_waits_placed:
  "is_wait g_two_waits 2" "2 \<in> set [0,1,2,3,4::nat]" "users g_two_waits 2 = [4]"
  "\<not> is_wait g_two_waits 4" "precedes 2 4 [0,1,2,3,4::nat]"
  "wait_before_earliest_user g_two_waits [0,1,2,3,4] 2"
  by code_simp+

lemma g_scenario_inj:
  "inj_on (fusion_meta g_scenario)
     {n \<in> set [''A'', ''C1'', ''W1'', ''B'', ''C2'', ''W2'', ''D'']. fusion_meta g_scenario n \<noteq> None}"
  unfolding g_scenario_def by (rule graph_of_inj)

lemma g_scenario_data_inj:
  "inj_on (fusion_meta g_scenario_data)
     {n \<in> set [''A'', ''C1'', ''W1'', ''B'', ''C2'', ''W2'', ''D'']. fusion_meta g_scenario_data n \<noteq> None}"
  unfolding g_scenario_data_def by (rule graph_of_inj)

lemma g_scenario_edge:
  "''W1'' \<in> set [''A'', ''C1'', ''W1'', ''B'', ''C2'', ''W2'', ''D'']"
  "''C1'' \<in> set (args g_scenario ''W1'')"
  "''C1'' \<in> set [''A'', ''C1'', ''W1'', ''B'', ''C2'', ''W2'', ''D'']"
  "fusion_meta g_scenario ''C1'' \<noteq> None" "fusion_meta g_scenario ''W1'' \<noteq> None"
  by code_simp+

section \<open>The claims\<close>

subsection \<open>C1\<close>

text \<open>
  Claim C1, as stated: for every input list that is a topological order of its graph,
  the output of both schedulers is a topological order: for every edge \<open>u \<rightarrow> v\<close> the
  node \<open>u\<close> stands before \<open>v\<close> in the output. It fails in two ways that the code chooses.
  Both schedulers begin by dropping the nodes that carry no \<open>fusion_meta\<close>: on the
  topological list \<open>1, 0\<close> of \<open>g_placeholder\<close>, with the edge from the placeholder 1 to
  the node 0, they return the node 0 alone. And \<open>raise_comms\<close> asserts that at most one
  communication node is pending when its loop ends: on the topological list
  \<open>0, 1, 2, 3, 4\<close> of \<open>g_two_waits\<close> both schedulers raise \<open>AssertionError\<close> and return no
  sequence at all.
\<close>

theorem schedules_topological_counterexample:
  "topological g_placeholder [1, 0] \<and> 1 \<in> set (args g_placeholder 0) \<and>
   smart_reordering g_placeholder [1, 0] = Some (Inr [0]) \<and> \<not> precedes 1 0 [0::nat] \<and>
   dumb_reordering g_placeholder [1, 0] = Inr [the (fusion_meta g_placeholder 0)] \<and>
   topological g_two_waits [0, 1, 2, 3, 4] \<and>
   smart_reordering g_two_waits [0, 1, 2, 3, 4] = Some (Inl AssertionError) \<and>
   dumb_reordering g_two_waits [0, 1, 2, 3, 4] = Inl AssertionError"
  using g_placeholder_facts g_placeholder_run g_two_waits_raise by blast

text \<open>
  Claim C1, amended. Let the input list be without repetition and a topological order
  of a graph whose \<open>args\<close> and \<open>users\<close> agree on it (with the users of a node without
  repetition, as the keys of a dict are), and let no Wait node of the list consume
  another Wait node. Then every sequence that the Overlap Scheduler returns is a
  topological order of the graph on the nodes that carry \<open>fusion_meta\<close>: it holds those
  nodes of the input, once each, and every arg of a node stands before the node. The
  Baseline Scheduler returns scheduler nodes; when different nodes of the list carry
  different scheduler nodes, every sequence it returns holds the scheduler nodes of
  the nodes that carry \<open>fusion_meta\<close>, once each, and the scheduler node of every arg of
  a node stands before the scheduler node of the node. (A scheduler may also raise
  \<open>AssertionError\<close> or not return; then there is no sequence. Nothing is said here of a
  graph in which a Wait node consumes a Wait node.)
\<close>

theorem schedules_topological:
  assumes "distinct nodes" and "\<forall>u\<in>set nodes. distinct (users g u)"
    and "\<forall>v\<in>set nodes. \<forall>u\<in>set (args g v). u \<in> set nodes \<longrightarrow> v \<in> set (users g u)"
    and "topological g nodes"
    and "\<forall>v\<in>set nodes. \<forall>u\<in>set (args g v). u \<in> set nodes \<longrightarrow> \<not> (is_wait g u \<and> is_wait g v)"
  shows "(smart_reordering g nodes = Some (Inr out) \<longrightarrow>
           topological g out \<and> set out = {n \<in> set nodes. fusion_meta g n \<noteq> None} \<and> distinct out) \<and>
         (inj_on (fusion_meta g) {n \<in> set nodes. fusion_meta g n \<noteq> None} \<and>
          dumb_reordering g nodes = Inr souts \<longrightarrow>
           distinct souts \<and>
           set souts = (\<lambda>node. the (fusion_meta g node)) ` {n \<in> set nodes. fusion_meta g n \<noteq> None} \<and>
           (\<forall>v\<in>set nodes. \<forall>u\<in>set (args g v).
              u \<in> set nodes \<and> fusion_meta g u \<noteq> None \<and> fusion_meta g v \<noteq> None \<longrightarrow>
              precedes (the (fusion_meta g u)) (the (fusion_meta g v)) souts))"
proof (rule conjI)
  show "smart_reordering g nodes = Some (Inr out) \<longrightarrow>
    topological g out \<and> set out = {n \<in> set nodes. fusion_meta g n \<noteq> None} \<and> distinct out"
  proof (rule impI)
    assume "smart_reordering g nodes = Some (Inr out)"
    from smart_reordering_topological[OF this assms]
    show "topological g out \<and> set out = {n \<in> set nodes. fusion_meta g n \<noteq> None} \<and> distinct out" .
  qed
  show "inj_on (fusion_meta g) {n \<in> set nodes. fusion_meta g n \<noteq> None} \<and>
      dumb_reordering g nodes = Inr souts \<longrightarrow>
    distinct souts \<and>
    set souts = (\<lambda>node. the (fusion_meta g node)) ` {n \<in> set nodes. fusion_meta g n \<noteq> None} \<and>
    (\<forall>v\<in>set nodes. \<forall>u\<in>set (args g v).
       u \<in> set nodes \<and> fusion_meta g u \<noteq> None \<and> fusion_meta g v \<noteq> None \<longrightarrow>
       precedes (the (fusion_meta g u)) (the (fusion_meta g v)) souts)"
  proof (rule impI)
    assume "inj_on (fusion_meta g) {n \<in> set nodes. fusion_meta g n \<noteq> None} \<and>
            dumb_reordering g nodes = Inr souts"
    then have inj: "inj_on (fusion_meta g) {n \<in> set nodes. fusion_meta g n \<noteq> None}"
      and run: "dumb_reordering g nodes = Inr souts" by simp_all
    from dumb_reordering_topological[OF run assms(1,3,4,5) inj]
    show "distinct souts \<and>
       set souts = (\<lambda>node. the (fusion_meta g node)) ` {n \<in> set nodes. fusion_meta g n \<noteq> None} \<and>
       (\<forall>v\<in>set nodes. \<forall>u\<in>set (args g v).
          u \<in> set nodes \<and> fusion_meta g u \<noteq> None \<and> fusion_meta g v \<noteq> None \<longrightarrow>
          precedes (the (fusion_meta g u)) (the (fusion_meta g v)) souts)" .
  qed
qed

theorem schedules_topological_witness:
  "smart_reordering g_scenario [''A'', ''C1'', ''W1'', ''B'', ''C2'', ''W2'', ''D'']
     = Some (Inr [''A'', ''C1'', ''W1'', ''B'', ''C2'', ''W2'', ''D'']) \<and>
   topological g_scenario [''A'', ''C1'', ''W1'', ''B'', ''C2'', ''W2'', ''D''] \<and>
   inj_on (fusion_meta g_scenario)
     {n \<in> set [''A'', ''C1'', ''W1'', ''B'', ''C2'', ''W2'', ''D'']. fusion_meta g_scenario n \<noteq> None} \<and>
   dumb_reordering g_scenario [''A'', ''C1'', ''W1'', ''B'', ''C2'', ''W2'', ''D'']
     = Inr (map (\<lambda>node. the (fusion_meta g_scenario node))
              [''A'', ''C1'', ''W1'', ''B'', ''C2'', ''W2'', ''D'']) \<and>
   distinct (map (\<lambda>node. the (fusion_meta g_scenario node))
               [''A'', ''C1'', ''W1'', ''B'', ''C2'', ''W2'', ''D'']) \<and>
   ''C1'' \<in> set (args g_scenario ''W1'') \<and>
   precedes (the (fusion_meta g_scenario ''C1'')) (the (fusion_meta g_scenario ''W1''))
     (map (\<lambda>node. the (fusion_meta g_scenario node))
        [''A'', ''C1'', ''W1'', ''B'', ''C2'', ''W2'', ''D''])"
proof -
  let ?L = "[''A'', ''C1'', ''W1'', ''B'', ''C2'', ''W2'', ''D'']"
  let ?s = "map (\<lambda>node. the (fusion_meta g_scenario node)) ?L"
  note t = schedules_topological[OF g_scenario_wf, of ?L ?s]
  from t g_scenario_run have a: "topological g_scenario ?L" by blast
  from t g_scenario_inj g_scenario_dumb
  have b: "distinct ?s" and c: "\<forall>v\<in>set ?L. \<forall>u\<in>set (args g_scenario v).
      u \<in> set ?L \<and> fusion_meta g_scenario u \<noteq> None \<and> fusion_meta g_scenario v \<noteq> None \<longrightarrow>
      precedes (the (fusion_meta g_scenario u)) (the (fusion_meta g_scenario v)) ?s"
    by blast+
  from c g_scenario_edge
  have "precedes (the (fusion_meta g_scenario ''C1'')) (the (fusion_meta g_scenario ''W1'')) ?s"
    by blast
  with a b g_scenario_run g_scenario_inj g_scenario_dumb g_scenario_edge(2) show ?thesis by blast
qed

subsection \<open>C2\<close>

text \<open>
  Claim C2. After \<open>decide_global_ordering_comms\<close> has run on the node list, two
  CommStart nodes \<open>a\<close> and \<open>b\<close> with \<open>a\<close> before \<open>b\<close> in the list appear in that order, and
  not in the other, in every schedule produced: in every sequence of nodes the
  Overlap Scheduler returns, and in every sequence of scheduler nodes the Baseline
  Scheduler returns (there the scheduler node of \<open>a\<close> stands before the scheduler node
  of \<open>b\<close>; different nodes of the list carry different scheduler nodes). The node list
  is without repetition, as the nodes of a graph are, and so are the users of a node,
  the keys of a dict.
\<close>

theorem comm_order_preserved:
  assumes "distinct nodes" and "\<forall>u\<in>set nodes. distinct (users g u)"
    and "is_comm g a" and "is_comm g b" and "precedes a b nodes"
  shows "(smart_reordering (decide_global_ordering_comms g nodes) nodes = Some (Inr out) \<longrightarrow>
           precedes a b out \<and> \<not> precedes b a out) \<and>
         (inj_on (fusion_meta g) {n \<in> set nodes. fusion_meta g n \<noteq> None} \<and>
          dumb_reordering (decide_global_ordering_comms g nodes) nodes = Inr souts \<longrightarrow>
           precedes (the (fusion_meta g a)) (the (fusion_meta g b)) souts \<and>
           \<not> precedes (the (fusion_meta g b)) (the (fusion_meta g a)) souts)"
proof -
  let ?g = "decide_global_ordering_comms g nodes"
  note m = decide_global_ordering_comms_meta[of g nodes]
  have du: "\<forall>u\<in>set nodes. distinct (users ?g u)"
    using assms(2) by (simp add: decide_global_ordering_comms_distinct)
  have chain: "\<forall>k. Suc k < length (filter (is_comm ?g) nodes) \<longrightarrow>
      filter (is_comm ?g) nodes ! Suc k \<in> set (users ?g (filter (is_comm ?g) nodes ! k))"
    unfolding m(2) using decide_global_ordering_comms_chain(1)[of _ g nodes] by blast
  have ab: "is_comm ?g a" "is_comm ?g b" using assms(3,4) by (simp_all add: m(2))
  have "precedes a b out \<and> \<not> precedes b a out" if run: "smart_reordering ?g nodes = Some (Inr out)"
  proof -
    from smart_reordering_comm_order[OF run assms(1) du chain ab assms(5)] have "precedes a b out" .
    with precedes_asym[OF smart_reordering_distinct[OF run assms(1) du]] show ?thesis by blast
  qed
  moreover have "precedes (the (fusion_meta g a)) (the (fusion_meta g b)) souts \<and>
           \<not> precedes (the (fusion_meta g b)) (the (fusion_meta g a)) souts"
    if run: "dumb_reordering ?g nodes = Inr souts"
      and inj: "inj_on (fusion_meta g) {n \<in> set nodes. fusion_meta g n \<noteq> None}"
  proof -
    from inj have "inj_on (fusion_meta ?g) {n \<in> set nodes. fusion_meta ?g n \<noteq> None}"
      unfolding m(1) .
    from dumb_reordering_comm_order[OF run assms(1) this ab assms(5)] show ?thesis
      unfolding m(1) .
  qed
  ultimately show ?thesis by blast
qed

theorem comm_order_preserved_witness:
  "is_comm g_scenario_data ''C1'' \<and> is_comm g_scenario_data ''C2'' \<and>
   precedes ''C1'' ''C2'' [''A'', ''C1'', ''W1'', ''B'', ''C2'', ''W2'', ''D''] \<and>
   smart_reordering
     (decide_global_ordering_comms g_scenario_data [''A'', ''C1'', ''W1'', ''B'', ''C2'', ''W2'', ''D''])
     [''A'', ''C1'', ''W1'', ''B'', ''C2'', ''W2'', ''D'']
     = Some (Inr [''A'', ''C1'', ''W1'', ''B'', ''C2'', ''W2'', ''D'']) \<and>
   \<not> precedes ''C2'' ''C1'' [''A'', ''C1'', ''W1'', ''B'', ''C2'', ''W2'', ''D''] \<and>
   inj_on (fusion_meta g_scenario_data)
     {n \<in> set [''A'', ''C1'', ''W1'', ''B'', ''C2'', ''W2'', ''D'']. fusion_meta g_scenario_data n \<noteq> None} \<and>
   dumb_reordering
     (decide_global_ordering_comms g_scenario_data [''A'', ''C1'', ''W1'', ''B'', ''C2'', ''W2'', ''D''])
     [''A'', ''C1'', ''W1'', ''B'', ''C2'', ''W2'', ''D'']
     = Inr (map (\<lambda>node. the (fusion_meta g_scenario_data node))
              [''A'', ''C1'', ''W1'', ''B'', ''C2'', ''W2'', ''D'']) \<and>
   precedes (the (fusion_meta g_scenario_data ''C1'')) (the (fusion_meta g_scenario_data ''C2''))
     (map (\<lambda>node. the (fusion_meta g_scenario_data node))
        [''A'', ''C1'', ''W1'', ''B'', ''C2'', ''W2'', ''D'']) \<and>
   \<not> precedes (the (fusion_meta g_scenario_data ''C2'')) (the (fusion_meta g_scenario_data ''C1''))
     (map (\<lambda>node. the (fusion_meta g_scenario_data node))
        [''A'', ''C1'', ''W1'', ''B'', ''C2'', ''W2'', ''D''])"
proof -
  let ?L = "[''A'', ''C1'', ''W1'', ''B'', ''C2'', ''W2'', ''D'']"
  have d: "distinct ?L" by simp
  note t = comm_order_preserved[OF d g_scenario_data_facts(1,2,3,4),
      of ?L "map (\<lambda>node. the (fusion_meta g_scenario_data node)) ?L"]
  from t g_scenario_data_facts(5) have a: "\<not> precedes ''C2'' ''C1'' ?L" by blast
  from t g_scenario_data_facts(6) g_scenario_data_inj
  have "precedes (the (fusion_meta g_scenario_data ''C1'')) (the (fusion_meta g_scenario_data ''C2''))
     (map (\<lambda>node. the (fusion_meta g_scenario_data node))
        ?L) \<and>
   \<not> precedes (the (fusion_meta g_scenario_data ''C2'')) (the (fusion_meta g_scenario_data ''C1''))
     (map (\<lambda>node. the (fusion_meta g_scenario_data node))
        ?L)" by blast
  with a g_scenario_data_facts g_scenario_data_inj show ?thesis by blast
qed

subsection \<open>C3\<close>

text \<open>
  Claim C3, as stated: every Wait node of the output of \<open>sink_waits\<close> stands directly
  before the earliest node that uses it, or is the last element when no node uses it.
  This fails when one node consumes two waits: both are released before it, in name
  order, and the first of them is not directly before the consumer.
\<close>

theorem wait_sinker_claim_counterexample:
  "sink_waits g_two_waits [0,1,2,3,4] = Inr [0,1,2,3,4] \<and> is_wait g_two_waits 2 \<and>
   \<not> wait_sinker_claim g_two_waits [0,1,2,3,4] 2"
  using g_two_waits_sink g_two_waits_kinds(1) g_two_waits_claim_fails by blast

text \<open>
  Claim C3, amended. Let the input of \<open>sink_waits\<close> be without repetition, and let \<open>w\<close> be
  a Wait node of it whose users in the input are not Wait nodes and stand after \<open>w\<close>
  there (as they do in a topological order). Then, when \<open>sink_waits\<close> returns, \<open>w\<close> stands
  in the output before the earliest node that uses it, and only Wait nodes (the other
  waits released for that node) stand between the two; when no node of the output
  uses \<open>w\<close>, only Wait nodes follow \<open>w\<close> to the end of the output.
\<close>

theorem sink_waits_wait_before_earliest_user:
  assumes "sink_waits g s = Inr r" and "distinct s"
    and "is_wait g w" and "w \<in> set s"
    and "\<forall>n\<in>set s. n \<in> set (users g w) \<longrightarrow> \<not> is_wait g n \<and> precedes w n s"
  shows "wait_before_earliest_user g r w"
  using assms by (rule sink_waits_wait_placed)

theorem sink_waits_wait_before_earliest_user_witness:
  "sink_waits g_two_waits [0,1,2,3,4] = Inr [0,1,2,3,4] \<and> is_wait g_two_waits 2 \<and>
   users g_two_waits 2 = [4] \<and> \<not> is_wait g_two_waits 4 \<and> precedes 2 4 [0,1,2,3,4::nat] \<and>
   wait_before_earliest_user g_two_waits [0,1,2,3,4] 2 \<and>
   takeWhile (\<lambda>n. n \<notin> set (users g_two_waits 2)) [0,1,2,3,4] = [0,1,2,3]"
proof -
  have d: "distinct [0,1,2,3,4::nat]" by simp
  have u: "\<forall>n\<in>set [0,1,2,3,4]. n \<in> set (users g_two_waits 2) \<longrightarrow>
      \<not> is_wait g_two_waits n \<and> precedes 2 n [0,1,2,3,4]"
    unfolding g_two_waits_placed(3) using g_two_waits_placed(4,5) by simp
  from sink_waits_wait_before_earliest_user[OF g_two_waits_sink d g_two_waits_placed(1,2) u]
  have "wait_before_earliest_user g_two_waits [0,1,2,3,4] 2" .
  moreover have "takeWhile (\<lambda>n. n \<notin> set (users g_two_waits 2)) [0,1,2,3,4] = [0,1,2,3]"
    unfolding g_two_waits_placed(3) by simp
  ultimately show ?thesis using g_two_waits_sink g_two_waits_placed by blast
qed

subsection \<open>C4\<close>

text \<open>
  Claim C4, as stated: every CommStart node of the output of \<open>raise_comms\<close> stands
  directly after the last of its args in the sequence, or first when it has none.
  The pending nodes are released from the head of the queue as long as any of them
  has the current node among its args, so a node is released together with the
  nodes queued behind it: in \<open>0, 1, 2, 3\<close> the collective 3 consumes only 0 and stays
  behind the collective 2.
\<close>

theorem comm_raiser_claim_counterexample:
  "distinct [0, 1, 2, 3::nat] \<and> topological g_two_comms [0, 1, 2, 3] \<and>
   raise_comms g_two_comms [0, 1, 2, 3] = Inr [0, 1, 2, 3] \<and>
   is_comm g_two_comms 3 \<and> args g_two_comms 3 = [0] \<and>
   \<not> comm_raiser_claim g_two_comms [0, 1, 2, 3] 3"
  using g_two_comms_facts by blast

text \<open>
  Claim C4, amended. Let the input of \<open>raise_comms\<close> be without repetition and a
  topological order, and let every CommStart node of it but the first have the
  CommStart node before it among its args (the edges of the Global Communication
  Orderer). Then, when \<open>raise_comms\<close> returns, every CommStart node of the output
  stands directly after the last of its args in the sequence, or is the first
  element when none of its args is in the sequence.
\<close>

theorem raise_comms_after_last_arg:
  assumes "raise_comms g s = Inr r" and "distinct s" and "topological g s"
    and "\<forall>k. Suc k < length (filter (is_comm g) s) \<longrightarrow>
           filter (is_comm g) s ! k \<in> set (args g (filter (is_comm g) s ! Suc k))"
    and "c \<in> set r" and "is_comm g c"
  shows "comm_raiser_claim g r c"
  using assms by (rule raise_comms_claim)

theorem raise_comms_after_last_arg_witness:
  "raise_comms g_scenario [''A'', ''C1'', ''W1'', ''B'', ''C2'', ''W2'', ''D'']
     = Inr [''A'', ''C1'', ''W1'', ''B'', ''C2'', ''W2'', ''D''] \<and>
   topological g_scenario [''A'', ''C1'', ''W1'', ''B'', ''C2'', ''W2'', ''D''] \<and>
   filter (is_comm g_scenario) [''A'', ''C1'', ''W1'', ''B'', ''C2'', ''W2'', ''D''] = [''C1'', ''C2''] \<and>
   ''C1'' \<in> set (args g_scenario ''C2'') \<and> is_comm g_scenario ''C2'' \<and>
   comm_raiser_claim g_scenario [''A'', ''C1'', ''W1'', ''B'', ''C2'', ''W2'', ''D''] ''C2''"
proof -
  let ?s = "[''A'', ''C1'', ''W1'', ''B'', ''C2'', ''W2'', ''D'']"
  have d: "distinct ?s" by simp
  have chain: "\<forall>k. Suc k < length (filter (is_comm g_scenario) ?s) \<longrightarrow>
      filter (is_comm g_scenario) ?s ! k \<in> set (args g_scenario (filter (is_comm g_scenario) ?s ! Suc k))"
    unfolding g_scenario_raise(3) using g_scenario_raise(4) by simp
  have m: "''C2'' \<in> set ?s" by simp
  from raise_comms_after_last_arg[OF g_scenario_raise(2) d g_scenario_raise(1) chain m g_scenario_raise(5)]
    g_scenario_raise
  show ?thesis by blast
qed

subsection \<open>C5\<close>

text \<open>
  Claim C5, as stated: on a node list without CommStart node \<open>smart_reordering\<close> returns
  its input, element for element. The first statement of the function drops the nodes
  that carry no \<open>fusion_meta\<close>, so a list with such a node (here the placeholder 1) is
  not returned unchanged.
\<close>

theorem smart_reordering_no_comm_counterexample:
  "filter (is_comm g_placeholder) [1, 0] = [] \<and>
   smart_reordering g_placeholder [1, 0] = Some (Inr [0])"
  using g_placeholder_no_comm g_placeholder_run by blast

text \<open>
  Claim C5, amended. On a node list without CommStart node \<open>smart_reordering\<close> returns
  the nodes of its input that carry \<open>fusion_meta\<close>, in the input order; the output equals
  the input when every node carries it.
\<close>

theorem smart_reordering_no_comm:
  assumes "\<forall>n\<in>set nodes. \<not> is_comm g n"
  shows "smart_reordering g nodes = Some (Inr (filter (\<lambda>node. fusion_meta g node \<noteq> None) nodes))"
  using assms by (rule smart_reordering_no_comm_eq)

theorem smart_reordering_no_comm_witness:
  "\<not> is_comm g_cycle 0 \<and> \<not> is_comm g_cycle 1 \<and>
   smart_reordering g_cycle [0, 1] = Some (Inr (filter (\<lambda>node. fusion_meta g_cycle node \<noteq> None) [0, 1])) \<and>
   filter (\<lambda>node. fusion_meta g_cycle node \<noteq> None) [0, 1] = [0, 1]"
proof -
  have k: "\<not> is_comm g_cycle 0" "\<not> is_comm g_cycle 1" by code_simp+
  then have "\<forall>n\<in>set [0, 1]. \<not> is_comm g_cycle n" by simp
  from smart_reordering_no_comm[OF this] g_cycle_run k show ?thesis by simp
qed

subsection \<open>C6\<close>

text \<open>
  Claim C6. Take an iteration of the main loop, for the pair \<open>prev = comm_nodes[idx - 1]\<close>
  and \<open>next = comm_nodes[idx]\<close>, that starts in the state \<open>st\<close> with \<open>rolled_over_compute\<close>.
  Let \<open>batch_cost\<close> be the summed cost of the Priority 1 batch, \<open>comm_cost\<close> the cost of
  \<open>prev\<close>, and \<open>st1\<close> the state in which scheduling the batch ends. When \<open>total_cost\<close> after
  Priority 1, which is \<open>rolled_over_compute + batch_cost\<close>, is at least \<open>comm_cost\<close>, then
  Priority 2, which the iteration enters in \<open>st1\<close> with that \<open>total_cost\<close>, schedules no
  node and leaves \<open>total_cost\<close> as it is: it returns \<open>st1\<close> and \<open>total_cost\<close> unchanged. The
  iteration is then Priority 3 run from \<open>st1\<close>, and it rolls no compute over.
\<close>

theorem overlap_step_priority2_skipped:
  assumes "sum_runtime g (tuple_sorted_set
            (unused_nodes st \<inter> (comm_ancestors (comm_nodes ! idx) - comm_descendants (comm_nodes ! (idx - 1)))))
          = Inr batch_cost"
    and "get_runtime_fx g (comm_nodes ! (idx - 1)) = Inr comm_cost"
    and "add_all_nodes g
            (unused_nodes st \<inter> (comm_ancestors (comm_nodes ! idx) - comm_descendants (comm_nodes ! (idx - 1)))) st
          = Some (Inr st1)"
    and "comm_cost \<le> rolled_over_compute + batch_cost"
  shows "priority2 g comm_nodes comm_ancestors comm_descendants (comm_nodes ! (idx - 1)) comm_cost
           (st1, rolled_over_compute + batch_cost) = Inr (st1, rolled_over_compute + batch_cost) \<and>
         overlap_step g comm_nodes comm_ancestors comm_descendants idx (st, rolled_over_compute)
           = and_then (add_all_nodes g
                         (insert (comm_nodes ! idx) (unused_nodes st1 \<inter> comm_ancestors (comm_nodes ! idx))) st1)
               (\<lambda>st3. Some (Inr (st3, 0)))"
proof
  show "priority2 g comm_nodes comm_ancestors comm_descendants (comm_nodes ! (idx - 1)) comm_cost
           (st1, rolled_over_compute + batch_cost) = Inr (st1, rolled_over_compute + batch_cost)"
    using assms(4) by (rule priority2_enough)
  show "overlap_step g comm_nodes comm_ancestors comm_descendants idx (st, rolled_over_compute)
           = and_then (add_all_nodes g
                         (insert (comm_nodes ! idx) (unused_nodes st1 \<inter> comm_ancestors (comm_nodes ! idx))) st1)
               (\<lambda>st3. Some (Inr (st3, 0)))"
    using assms by (rule overlap_step_enough)
qed

text \<open>
  The iteration for the two collectives of \<open>g_fill\<close>, in the state \<open>st\<close> that the scheduler
  is in when its main loop begins: the Priority 1 batch is the node 1 of cost 3, the
  cost of \<open>prev\<close> is 1, and the free node 3, which is no descendant of \<open>prev\<close>, stays
  unscheduled in Priority 2.
\<close>

theorem overlap_step_priority2_skipped_witness:
  "\<exists>st st1.
     add_all_nodes g_fill (insert ([0, 2] ! 0) (the (get_ancestors g_fill ([0, 2] ! 0))))
       (init_sched g_fill [0, 1, 2, 3]) = Some (Inr st) \<and>
     unused_nodes st \<inter> (the (get_ancestors g_fill 2) - the (get_descendants g_fill 0)) = {1} \<and>
     sum_runtime g_fill (tuple_sorted_set {1}) = Inr 3 \<and>
     get_runtime_fx g_fill 0 = Inr 1 \<and>
     add_all_nodes g_fill {1} st = Some (Inr st1) \<and>
     (1::rat) \<le> 0 + 3 \<and>
     3 \<in> free_nodes st1 - the (get_descendants g_fill 0) \<and>
     priority2 g_fill [0, 2] (\<lambda>c. the (get_ancestors g_fill c)) (\<lambda>c. the (get_descendants g_fill c)) 0 1
       (st1, 0 + 3) = Inr (st1, 0 + 3) \<and>
     overlap_step g_fill [0, 2] (\<lambda>c. the (get_ancestors g_fill c)) (\<lambda>c. the (get_descendants g_fill c)) 1
       (st, 0)
       = and_then (add_all_nodes g_fill (insert 2 (unused_nodes st1 \<inter> the (get_ancestors g_fill 2))) st1)
           (\<lambda>st3. Some (Inr (st3, 0)))"
proof -
  let ?anc = "\<lambda>c. the (get_ancestors g_fill c)" and ?desc = "\<lambda>c. the (get_descendants g_fill c)"
  from comp_returns[OF g_fill_states] obtain st where
    s0: "add_all_nodes g_fill {0} (init_sched g_fill [0, 1, 2, 3]) = Some (Inr st)"
    and u0: "unused_nodes st = {1, 2, 3}"
    and r0: "case add_all_nodes g_fill {1} st of
          Some (Inr st1) \<Rightarrow> result st1 = [0, 1] \<and> 3 \<in> free_nodes st1 \<and> unused_nodes st1 = {2, 3}
        | _ \<Rightarrow> False"
    by blast
  from comp_returns[OF r0] obtain st1 where s1: "add_all_nodes g_fill {1} st = Some (Inr st1)"
    and f1: "3 \<in> free_nodes st1"
    by blast
  have p1: "unused_nodes st \<inter> (?anc 2 - ?desc 0) = {1}"
    unfolding u0 g_fill_facts by auto
  have i: "[0, 2::nat] ! 1 = 2" "[0, 2::nat] ! (1 - 1) = 0" "[0, 2::nat] ! 0 = 0" by simp_all
  have b: "sum_runtime g_fill (tuple_sorted_set
            (unused_nodes st \<inter> (?anc ([0, 2] ! 1) - ?desc ([0, 2] ! (1 - 1))))) = Inr 3"
    unfolding i p1 by (rule g_fill_facts)
  have c: "get_runtime_fx g_fill ([0, 2] ! (1 - 1)) = Inr 1" unfolding i by (rule g_fill_facts)
  have a: "add_all_nodes g_fill
            (unused_nodes st \<inter> (?anc ([0, 2] ! 1) - ?desc ([0, 2] ! (1 - 1)))) st = Some (Inr st1)"
    unfolding i p1 by (rule s1)
  have le: "(1::rat) \<le> 0 + 3" by simp
  note t = overlap_step_priority2_skipped[where g = g_fill and st = st and comm_ancestors = ?anc
      and comm_nodes = "[0, 2]" and idx = 1 and comm_descendants = ?desc and batch_cost = 3
      and comm_cost = 1 and ?st1.0 = st1 and rolled_over_compute = 0, OF b c a le, unfolded i]
  have s0': "add_all_nodes g_fill (insert ([0, 2] ! 0) (the (get_ancestors g_fill ([0, 2] ! 0))))
       (init_sched g_fill [0, 1, 2, 3]) = Some (Inr st)"
    unfolding i g_fill_facts using s0 by simp
  have f: "3 \<in> free_nodes st1 - the (get_descendants g_fill 0)"
    unfolding g_fill_facts using f1 by simp
  from t s0' p1 g_fill_facts(6,7) s1 le f show ?thesis by blast
qed

subsection \<open>C7\<close>

text \<open>
  Claim C7, as stated: on the scenario graph the output of the Overlap Scheduler is
  exactly \<open>A, C1, B, C2, W2, D\<close>. That sequence leaves \<open>W1\<close> out; the scheduler returns
  all seven nodes.
\<close>

theorem scenario_counterexample:
  "smart_reordering g_scenario [''A'', ''C1'', ''W1'', ''B'', ''C2'', ''W2'', ''D'']
     \<noteq> Some (Inr [''A'', ''C1'', ''B'', ''C2'', ''W2'', ''D''])"
  by (simp add: g_scenario_run)

text \<open>
  Claim C7, amended. On the scenario graph the output of the Overlap Scheduler is
  exactly \<open>A, C1, W1, B, C2, W2, D\<close>, with \<open>W1\<close> directly before \<open>B\<close>. The output is the
  same when the nodes are given in the order in which the specification lists them
  (\<open>B\<close> before \<open>W1\<close>), and when \<open>C2\<close> has no ordering edge from \<open>C1\<close>.
\<close>

theorem scenario_order:
  "smart_reordering g_scenario [''A'', ''C1'', ''W1'', ''B'', ''C2'', ''W2'', ''D'']
     = Some (Inr [''A'', ''C1'', ''W1'', ''B'', ''C2'', ''W2'', ''D'']) \<and>
   smart_reordering g_scenario [''A'', ''C1'', ''B'', ''W1'', ''C2'', ''W2'', ''D'']
     = Some (Inr [''A'', ''C1'', ''W1'', ''B'', ''C2'', ''W2'', ''D'']) \<and>
   smart_reordering g_scenario_data [''A'', ''C1'', ''W1'', ''B'', ''C2'', ''W2'', ''D'']
     = Some (Inr [''A'', ''C1'', ''W1'', ''B'', ''C2'', ''W2'', ''D'']) \<and>
   smart_reordering g_scenario_data [''A'', ''C1'', ''B'', ''W1'', ''C2'', ''W2'', ''D'']
     = Some (Inr [''A'', ''C1'', ''W1'', ''B'', ''C2'', ''W2'', ''D''])"
  using g_scenario_run g_scenario_variants by blast

subsection \<open>C8\<close>

text \<open>
  Claim C8. The Wait Sinker and the Communication Raiser are idempotent: applying
  \<open>sink_waits\<close> to its own output returns that output, and so does \<open>raise_comms\<close>. An
  exception of the first application propagates through the second call, so both
  sides are then the same exception.
\<close>

theorem cleanup_passes_idempotent:
  "(case sink_waits g s of Inl e \<Rightarrow> Inl e | Inr r \<Rightarrow> sink_waits g r) = sink_waits g s \<and>
   (case raise_comms g s of Inl e \<Rightarrow> Inl e | Inr r \<Rightarrow> raise_comms g r) = raise_comms g s"
proof
  show "(case sink_waits g s of Inl e \<Rightarrow> Inl e | Inr r \<Rightarrow> sink_waits g r) = sink_waits g s"
    by (cases "sink_waits g s") (simp_all add: sink_waits_idem)
  show "(case raise_comms g s of Inl e \<Rightarrow> Inl e | Inr r \<Rightarrow> raise_comms g r) = raise_comms g s"
    by (cases "raise_comms g s") (simp_all add: raise_comms_idem)
qed

theorem cleanup_passes_idempotent_witness:
  "sink_waits g_frame [0,3,1,2,5,4] = Inr [0,3,1,5,2,4] \<and>
   sink_waits g_frame [0,3,1,5,2,4] = Inr [0,3,1,5,2,4] \<and>
   raise_comms g_frame [0,3,1,2,5,4] = Inr [0,1,3,2,5,4] \<and>
   raise_comms g_frame [0,1,3,2,5,4] = Inr [0,1,3,2,5,4]"
  using cleanup_passes_idempotent[of g_frame "[0,3,1,2,5,4]", unfolded g_frame_sink g_frame_raise sum.case]
    g_frame_sink g_frame_raise by blast

subsection \<open>C9\<close>

text \<open>
  Claim C9, as stated: on a cyclic input graph the Overlap Scheduler detects the
  cycle and fails, rather than dropping nodes or failing to terminate. The function
  has no such check. Two compute nodes that consume each other are returned as
  given; the same cycle beside a collective makes the last call of \<open>add_all_nodes\<close>
  run forever; and when one node of that cycle carries no \<open>fusion_meta\<close>, the scheduler
  drops it and returns the other two nodes.
\<close>

theorem cycle_detection_counterexample:
  "1 \<in> set (users g_cycle 0) \<and> 0 \<in> set (users g_cycle 1) \<and>
   smart_reordering g_cycle [0, 1] = Some (Inr [0, 1]) \<and>
   2 \<in> set (users g_cycle_comm 1) \<and> 1 \<in> set (users g_cycle_comm 2) \<and>
   smart_reordering g_cycle_comm [0, 1, 2] = None \<and>
   2 \<in> set (users g_cycle_placeholder 1) \<and> 1 \<in> set (users g_cycle_placeholder 2) \<and>
   smart_reordering g_cycle_placeholder [0, 1, 2] = Some (Inr [0, 1])"
  using g_cycle_edges g_cycle_run g_cycle_comm_facts(5,6) g_cycle_comm_diverges
    g_cycle_placeholder_facts by blast

text \<open>
  Claim C9, amended. Take a node list without repetition (and users without
  repetition) in which the nodes that carry \<open>fusion_meta\<close> have a cycle among them,
  along the \<open>users\<close> of the nodes. When the list holds a CommStart node, the Overlap
  Scheduler returns no schedule: it does not terminate, or it raises \<open>AssertionError\<close>;
  nothing checks for the cycle itself. When the list holds no CommStart node, the
  scheduler returns the nodes that carry \<open>fusion_meta\<close>, in input order. (A cycle through
  a node without \<open>fusion_meta\<close> is outside this statement: such a node is dropped by the
  first line of the function.)
\<close>

theorem cyclic_graph_no_schedule:
  assumes "distinct nodes" and "\<forall>u\<in>set nodes. distinct (users g u)"
    and "\<not> acyclic (users_edges g (filter (\<lambda>node. fusion_meta g node \<noteq> None) nodes))"
  shows "(filter (is_comm g) nodes \<noteq> [] \<longrightarrow>
            smart_reordering g nodes = None \<or> smart_reordering g nodes = Some (Inl AssertionError)) \<and>
         (filter (is_comm g) nodes = [] \<longrightarrow>
            smart_reordering g nodes = Some (Inr (filter (\<lambda>node. fusion_meta g node \<noteq> None) nodes)))"
proof (intro conjI impI)
  assume comm: "filter (is_comm g) nodes \<noteq> []"
  show "smart_reordering g nodes = None \<or> smart_reordering g nodes = Some (Inl AssertionError)"
  proof (cases "smart_reordering g nodes")
    case None
    then show ?thesis by simp
  next
    case (Some r)
    show ?thesis
    proof (cases r)
      case (Inl e)
      with Some have "smart_reordering g nodes = Some (Inl e)" by simp
      with smart_reordering_err[OF this assms(1,2)] show ?thesis by simp
    next
      case (Inr out)
      with Some have "smart_reordering g nodes = Some (Inr out)" by simp
      from smart_reordering_acyclic[OF this comm assms(1,2)] assms(3) show ?thesis by simp
    qed
  qed
next
  assume "filter (is_comm g) nodes = []"
  then have "\<forall>n\<in>set nodes. \<not> is_comm g n" by (simp add: filter_empty_conv)
  then show "smart_reordering g nodes = Some (Inr (filter (\<lambda>node. fusion_meta g node \<noteq> None) nodes))"
    by (rule smart_reordering_no_comm_eq)
qed

theorem cyclic_graph_no_schedule_witness:
  "filter (is_comm g_cycle_comm) [0, 1, 2] = [0] \<and>
   filter (\<lambda>node. fusion_meta g_cycle_comm node \<noteq> None) [0, 1, 2] = [0, 1, 2] \<and>
   2 \<in> set (users g_cycle_comm 1) \<and> 1 \<in> set (users g_cycle_comm 2) \<and>
   (smart_reordering g_cycle_comm [0, 1, 2] = None \<or>
    smart_reordering g_cycle_comm [0, 1, 2] = Some (Inl AssertionError))"
proof -
  note t = cyclic_graph_no_schedule[OF g_cycle_comm_facts(1,2) g_cycle_comm_cyclic]
  have "filter (is_comm g_cycle_comm) [0, 1, 2] \<noteq> []" unfolding g_cycle_comm_facts(4) by simp
  with t have "smart_reordering g_cycle_comm [0, 1, 2] = None \<or>
    smart_reordering g_cycle_comm [0, 1, 2] = Some (Inl AssertionError)" by blast
  with g_cycle_comm_facts(3,4,5,6) show ?thesis by blast
qed

subsection \<open>C10\<close>

text \<open>
  Claim C10. The two cleanup passes only move the nodes they target: whenever
  \<open>sink_waits\<close> returns, the non-Wait nodes of its output are the non-Wait nodes of its
  input, in the same order; whenever \<open>raise_comms\<close> returns, the non-CommStart nodes of
  its output are the non-CommStart nodes of its input, in the same order. (A pass
  that raises has no output.)
\<close>

theorem cleanup_passes_frame:
  "(sink_waits g s = Inr r \<longrightarrow>
      filter (\<lambda>n. \<not> is_wait g n) r = filter (\<lambda>n. \<not> is_wait g n) s) \<and>
   (raise_comms g s = Inr r' \<longrightarrow>
      filter (\<lambda>n. \<not> is_comm g n) r' = filter (\<lambda>n. \<not> is_comm g n) s)"
  using sink_waits_frame[of g s r] raise_comms_frame(1)[of g s r'] by blast

theorem cleanup_passes_frame_witness:
  "sink_waits g_frame [0,3,1,2,5,4] = Inr [0,3,1,5,2,4] \<and>
   raise_comms g_frame [0,3,1,2,5,4] = Inr [0,1,3,2,5,4] \<and>
   filter (\<lambda>n. \<not> is_wait g_frame n) [0,3,1,5,2,4] = filter (\<lambda>n. \<not> is_wait g_frame n) [0,3,1,2,5,4] \<and>
   filter (\<lambda>n. \<not> is_comm g_frame n) [0,1,3,2,5,4] = filter (\<lambda>n. \<not> is_comm g_frame n) [0,3,1,2,5,4]"
  using cleanup_passes_frame[of g_frame "[0,3,1,2,5,4]" "[0,3,1,5,2,4]" "[0,1,3,2,5,4]"]
    g_frame_sink g_frame_raise by blast

end
